theory Spec2Isabelle
  imports Main
begin

section \<open>The parser of md\_to\_gdoc: a shallow embedding\<close>

text \<open>
  The source is \<^verbatim>\<open>src/md_to_gdoc.py\<close>; the functions modelled are
  \<^verbatim>\<open>_mention_spans\<close> and \<^verbatim>\<open>parse_markdown\<close> together with the
  methods of \<^verbatim>\<open>str\<close> and the three regular expressions they call.

  A Python \<^verbatim>\<open>str\<close> is a sequence of code points. It is modelled as \<^typ>\<open>string\<close>, a
  list of \<^typ>\<open>char\<close>, each \<^typ>\<open>char\<close> read as the code point of the same number
  (0 to 255), so \<^const>\<open>length\<close> and list positions are Python's \<^verbatim>\<open>len\<close> and
  indices. The two character classes below are Python's classes on that range.
\<close>

subsection \<open>Character classes\<close>

text \<open>
  The characters \<^verbatim>\<open>str.strip\<close>, \<^verbatim>\<open>str.rstrip\<close> and the pattern \<^verbatim>\<open>\s\<close> treat as
  white space (the three agree): TAB, LF, VT, FF, CR, the separators 28 to 31, the space,
  NEL (133) and the no-break space (160).
\<close>

definition is_space :: "char \<Rightarrow> bool" where
  "is_space c =
     (let n = (of_char c :: nat)
      in (9 \<le> n \<and> n \<le> 13) \<or> (28 \<le> n \<and> n \<le> 32) \<or> n = 133 \<or> n = 160)"

text \<open>
  The characters the pattern \<^verbatim>\<open>\w\<close> matches: digits, letters and the underscore, and
  among the code points above 127 the letters and numeric characters of Latin-1.
\<close>

definition is_word :: "char \<Rightarrow> bool" where
  "is_word c =
     (let n = (of_char c :: nat)
      in (48 \<le> n \<and> n \<le> 57) \<or> (65 \<le> n \<and> n \<le> 90) \<or> n = 95 \<or> (97 \<le> n \<and> n \<le> 122)
         \<or> n = 170 \<or> n = 178 \<or> n = 179 \<or> n = 181 \<or> n = 185 \<or> n = 186
         \<or> (188 \<le> n \<and> n \<le> 190) \<or> (192 \<le> n \<and> n \<le> 214) \<or> (216 \<le> n \<and> n \<le> 246)
         \<or> 248 \<le> n)"

subsection \<open>Methods of str\<close>

text \<open>\<^verbatim>\<open>s.startswith(p)\<close>.\<close>

definition startswith :: "string \<Rightarrow> string \<Rightarrow> bool" where
  "startswith p s = (take (length p) s = p)"

text \<open>\<^verbatim>\<open>s.lstrip()\<close>, \<^verbatim>\<open>s.rstrip()\<close> and \<^verbatim>\<open>s.strip()\<close>, with no argument.\<close>

definition lstrip :: "string \<Rightarrow> string" where
  "lstrip s = dropWhile is_space s"

definition rstrip :: "string \<Rightarrow> string" where
  "rstrip s = rev (dropWhile is_space (rev s))"

definition strip :: "string \<Rightarrow> string" where
  "strip s = lstrip (rstrip s)"

text \<open>
  \<^verbatim>\<open>s.replace(old, new)\<close> for a non-empty \<^verbatim>\<open>old\<close> (both calls of the source pass
  one): the occurrences of \<^verbatim>\<open>old\<close> are replaced from the left, without overlap.
\<close>

fun replace :: "string \<Rightarrow> string \<Rightarrow> string \<Rightarrow> string" where
  "replace old new [] = []"
| "replace old new (c # cs) =
     (if old \<noteq> [] \<and> startswith old (c # cs)
      then new @ replace old new (drop (length old - 1) cs)
      else c # replace old new cs)"

text \<open>
  \<^verbatim>\<open>s.split(sep)\<close> for a non-empty \<^verbatim>\<open>sep\<close>: the pieces between the occurrences of
  \<^verbatim>\<open>sep\<close>, empty pieces kept, so the result is never empty.
\<close>

fun split :: "string \<Rightarrow> string \<Rightarrow> string list" where
  "split sep [] = [[]]"
| "split sep (c # cs) =
     (if sep \<noteq> [] \<and> startswith sep (c # cs)
      then [] # split sep (drop (length sep - 1) cs)
      else (case split sep cs of
              [] \<Rightarrow> [[c]]
            | w # ws \<Rightarrow> (c # w) # ws))"

text \<open>
  \<^verbatim>\<open>s.partition(sep)\<close> for a non-empty \<^verbatim>\<open>sep\<close>: the part before the first occurrence,
  the separator, the part after it; \<^verbatim>\<open>(s, "", "")\<close> when \<^verbatim>\<open>sep\<close> does not occur.
\<close>

fun partition_str :: "string \<Rightarrow> string \<Rightarrow> string \<times> string \<times> string" where
  "partition_str sep [] = ([], [], [])"
| "partition_str sep (c # cs) =
     (if sep \<noteq> [] \<and> startswith sep (c # cs)
      then ([], sep, drop (length sep - 1) cs)
      else (case partition_str sep cs of (a, s, b) \<Rightarrow> (c # a, s, b)))"

subsection \<open>The regular expressions\<close>

text \<open>
  \<^verbatim>\<open>(.*)$\<close> at the end of a pattern, matched against the rest \<^verbatim>\<open>r\<close> of the subject:
  the dot matches every character but LF, and \<^verbatim>\<open>$\<close> matches at the end of the subject
  or before an LF that ends it. The result is the text of the group.
\<close>

definition rest_group :: "string \<Rightarrow> string option" where
  "rest_group r =
     (let body = (if r \<noteq> [] \<and> last r = CHR 0x0A then butlast r else r)
      in if CHR 0x0A \<in> set body then None else Some body)"

text \<open>
  \<^verbatim>\<open>re.match(r"^(\s*)-\s*\[ \]\s+(.*)$", line)\<close>: groups 1 and 2 of the match, or
  \<^const>\<open>None\<close>. Each run of \<^verbatim>\<open>\s\<close> is followed by a character that is not white space
  (or by the group that takes all the rest), so the runs are the maximal ones.
\<close>

definition match_cb :: "string \<Rightarrow> (string \<times> string) option" where
  "match_cb line =
     (let g1 = takeWhile is_space line; r1 = dropWhile is_space line
      in if \<not> startswith ''-'' r1 then None
         else let r2 = dropWhile is_space (drop 1 r1)
              in if \<not> startswith ''[ ]'' r2 then None
                 else let r3 = drop 3 r2
                      in if takeWhile is_space r3 = [] then None
                         else (case rest_group (dropWhile is_space r3) of
                                 None \<Rightarrow> None
                               | Some g2 \<Rightarrow> Some (g1, g2)))"

text \<open>
  \<^verbatim>\<open>re.match(r"^(\s*)([-*])\s+(.*)$", line)\<close>: groups 1 and 3 of the match, or
  \<^const>\<open>None\<close>.
\<close>

definition match_b :: "string \<Rightarrow> (string \<times> string) option" where
  "match_b line =
     (let g1 = takeWhile is_space line; r1 = dropWhile is_space line
      in if \<not> (startswith ''-'' r1 \<or> startswith ''*'' r1) then None
         else let r2 = drop 1 r1
              in if takeWhile is_space r2 = [] then None
                 else (case rest_group (dropWhile is_space r2) of
                         None \<Rightarrow> None
                       | Some g3 \<Rightarrow> Some (g1, g3)))"

text \<open>
  \<^verbatim>\<open>MENTION_RE.finditer(s)\<close> for the pattern \<^verbatim>\<open>@\w+\<close>, as the pairs
  \<^verbatim>\<open>(m.start(), m.end())\<close>: the scan goes from the left, a match takes the longest run
  of word characters, and the search goes on at the end of the match. The first argument
  is the position of the rest in the subject.
\<close>

function mention_scan :: "nat \<Rightarrow> string \<Rightarrow> (nat \<times> nat) list" where
  "mention_scan i [] = []"
| "mention_scan i (c # cs) =
     (if c = CHR ''@'' \<and> takeWhile is_word cs \<noteq> []
      then (i, i + 1 + length (takeWhile is_word cs))
             # mention_scan (i + 1 + length (takeWhile is_word cs)) (dropWhile is_word cs)
      else mention_scan (i + 1) cs)"
  by pat_completeness auto
termination
  by (relation "measure (\<lambda>(i, s). length s)")
     (auto simp: length_dropWhile_le less_Suc_eq_le)

subsection \<open>The paragraph record and the parser\<close>

text \<open>
  The dataclass \<^verbatim>\<open>Paragraph\<close>; \<^verbatim>\<open>level\<close> defaults to 0 and \<^verbatim>\<open>mentions\<close> to ().
  The field \<^verbatim>\<open>text\<close> is \<open>text_field\<close> here. A level is a length divided by 2, so
  it is never negative and is a \<^typ>\<open>nat\<close>.
\<close>

record Paragraph =
  kind :: string
  text_field :: string
  level :: nat
  mentions :: "(nat \<times> nat) list"

text \<open>
  The constructor call \<^verbatim>\<open>Paragraph(kind=k, text=t, level=l, mentions=ms)\<close>; a call of
  the source that leaves \<^verbatim>\<open>level\<close> or \<^verbatim>\<open>mentions\<close> out passes 0 or the empty list.
\<close>

definition mk :: "string \<Rightarrow> string \<Rightarrow> nat \<Rightarrow> (nat \<times> nat) list \<Rightarrow> Paragraph" where
  "mk k t l ms = \<lparr>kind = k, text_field = t, level = l, mentions = ms\<rparr>"

text \<open>\<^verbatim>\<open>_mention_spans(s)\<close>: the spans of all matches of \<^verbatim>\<open>MENTION_RE\<close> in \<^verbatim>\<open>s\<close>.\<close>

definition mention_spans :: "string \<Rightarrow> (nat \<times> nat) list" where
  "mention_spans s = mention_scan 0 s"

text \<open>
  The body of the loop of \<^verbatim>\<open>parse_markdown\<close> for one element \<^verbatim>\<open>raw\<close> of
  \<^verbatim>\<open>lines\<close>: from the value of \<^verbatim>\<open>in_footer\<close> before the iteration, the records the
  iteration appends to \<^verbatim>\<open>out\<close> and the value of \<^verbatim>\<open>in_footer\<close> after it. The
  branches are in the order of the source; each \<^verbatim>\<open>continue\<close> ends its branch.
\<close>

definition parse_line :: "bool \<Rightarrow> string \<Rightarrow> Paragraph list \<times> bool" where
  "parse_line in_footer raw =
     (let line = rstrip raw in
      if strip line = [] then ([mk ''text'' [] 0 []], in_footer)
      else if strip line = ''---'' then ([mk ''hr'' [] 0 []], True)
      else if startswith ''# '' line then
        (let title = strip (drop 2 line);
             (main, _, rest) = partition_str '' - '' title
         in ([mk ''h1'' (strip main) 0 []]
               @ (if strip rest \<noteq> [] then [mk ''text'' (strip rest) 0 []] else []),
             in_footer))
      else if startswith ''## '' line then ([mk ''h2'' (strip (drop 3 line)) 0 []], in_footer)
      else if startswith ''### '' line then ([mk ''h3'' (strip (drop 4 line)) 0 []], in_footer)
      else (case match_cb line of
              Some (g1, g2) \<Rightarrow>
                (let lvl = length g1 div 2; txt = strip g2
                 in ([mk ''checkbox'' txt lvl (mention_spans txt)], in_footer))
            | None \<Rightarrow>
                (case match_b line of
                   Some (g1, g3) \<Rightarrow>
                     (let lvl = length g1 div 2; txt = strip g3;
                          k = (if in_footer then ''footer'' else ''bullet'')
                      in ([mk k txt lvl (mention_spans txt)], in_footer))
                 | None \<Rightarrow>
                     (let txt = strip line
                      in ([mk (if in_footer then ''footer'' else ''text'') txt 0
                             (mention_spans txt)], in_footer)))))"

text \<open>The loop: \<^verbatim>\<open>out\<close> and \<^verbatim>\<open>in_footer\<close> are threaded through the lines.\<close>

fun parse_lines :: "Paragraph list \<Rightarrow> bool \<Rightarrow> string list \<Rightarrow> Paragraph list" where
  "parse_lines out in_footer [] = out"
| "parse_lines out in_footer (raw # rest) =
     (case parse_line in_footer raw of
        (recs, in_footer') \<Rightarrow> parse_lines (out @ recs) in_footer' rest)"

text \<open>
  \<^verbatim>\<open>md.replace("\r\n", "\n").replace("\r", "\n").split("\n")\<close>, the list the loop
  runs over.
\<close>

definition split_lines :: "string \<Rightarrow> string list" where
  "split_lines md =
     split [CHR 0x0A] (replace [CHR 0x0D] [CHR 0x0A] (replace [CHR 0x0D, CHR 0x0A] [CHR 0x0A] md))"

definition parse_markdown :: "string \<Rightarrow> Paragraph list" where
  "parse_markdown md = parse_lines [] False (split_lines md)"

subsection \<open>The loop, line by line\<close>

text \<open>
  The value of \<^verbatim>\<open>in_footer\<close> after the loop has run over a list of lines, started with
  the value \<open>f\<close>.
\<close>

fun footer_after :: "bool \<Rightarrow> string list \<Rightarrow> bool" where
  "footer_after f [] = f"
| "footer_after f (raw # rest) = footer_after (snd (parse_line f raw)) rest"

text \<open>
  The value of \<^verbatim>\<open>in_footer\<close> when iteration \<open>j\<close> of the loop over \<open>ls\<close> starts, and
  the records that iteration appends.
\<close>

definition in_footer_at :: "string list \<Rightarrow> nat \<Rightarrow> bool" where
  "in_footer_at ls j = footer_after False (take j ls)"

definition line_records :: "string list \<Rightarrow> nat \<Rightarrow> Paragraph list" where
  "line_records ls j = fst (parse_line (in_footer_at ls j) (ls ! j))"

subsection \<open>Classes of lines\<close>

text \<open>
  The classes of lines the properties speak of. The classifier works on the line with its
  trailing white space removed (\<^verbatim>\<open>line = raw.rstrip()\<close>), so a heading line is one that
  starts with a heading prefix after that, and a checkbox line one that the checkbox
  pattern matches after that.
\<close>

definition is_blank :: "string \<Rightarrow> bool" where
  "is_blank raw = (strip raw = [])"

definition is_hr :: "string \<Rightarrow> bool" where
  "is_hr raw = (strip raw = ''---'')"

definition is_heading :: "string \<Rightarrow> bool" where
  "is_heading raw =
     (startswith ''# '' (rstrip raw) \<or> startswith ''## '' (rstrip raw)
        \<or> startswith ''### '' (rstrip raw))"

definition is_checkbox :: "string \<Rightarrow> bool" where
  "is_checkbox raw = (match_cb (rstrip raw) \<noteq> None)"

definition is_bullet :: "string \<Rightarrow> bool" where
  "is_bullet raw = (match_b (rstrip raw) \<noteq> None)"

text \<open>The string \<open>sep\<close> occurs in \<open>s\<close>, at some position.\<close>

definition occurs :: "string \<Rightarrow> string \<Rightarrow> bool" where
  "occurs sep s = list_ex (\<lambda>i. startswith sep (drop i s)) [0..<Suc (length s)]"

text \<open>
  A line that starts with \<^verbatim>\<open>"# "\<close> and whose remainder, trimmed and split at the first
  \<^verbatim>\<open>" - "\<close>, has a part after the separator that is not empty once trimmed.
\<close>

definition has_subtitle :: "string \<Rightarrow> bool" where
  "has_subtitle raw =
     (startswith ''# '' raw
        \<and> strip (snd (snd (partition_str '' - '' (strip (drop 2 raw))))) \<noteq> [])"

text \<open>
  A line that starts with \<^verbatim>\<open>"# "\<close> and whose content (the remainder, trimmed) contains
  the separator \<^verbatim>\<open>" - "\<close>.
\<close>

definition has_separator :: "string \<Rightarrow> bool" where
  "has_separator raw = (startswith ''# '' raw \<and> occurs '' - '' (strip (drop 2 raw)))"

text \<open>The eight kinds of a record.\<close>

definition kinds :: "string list" where
  "kinds = [''text'', ''h1'', ''h2'', ''h3'', ''bullet'', ''checkbox'', ''footer'', ''hr'']"

subsection \<open>Mention tokens, by position\<close>

text \<open>
  The tokens of the form "@ followed by one or more word characters" in a text, stated
  position by position rather than as a scan: a token starts at \<open>p\<close> when the character
  at \<open>p\<close> is @ and a word character follows; the maximal token that starts there ends
  after the longest run of word characters. \<open>mention_tokens\<close> lists the half-open spans
  of the maximal tokens by increasing start.
\<close>

definition mention_at :: "string \<Rightarrow> nat \<Rightarrow> bool" where
  "mention_at t p =
     (p < length t \<and> t ! p = CHR ''@'' \<and> takeWhile is_word (drop (Suc p) t) \<noteq> [])"

definition mention_end :: "string \<Rightarrow> nat \<Rightarrow> nat" where
  "mention_end t p = Suc p + length (takeWhile is_word (drop (Suc p) t))"

definition mention_tokens :: "string \<Rightarrow> (nat \<times> nat) list" where
  "mention_tokens t = map (\<lambda>p. (p, mention_end t p)) (filter (mention_at t) [0..<length t])"

text \<open>A span moved to the right by \<open>n\<close> positions.\<close>

definition shift :: "nat \<Rightarrow> nat \<times> nat \<Rightarrow> nat \<times> nat" where
  "shift n = (\<lambda>(a, b). (a + n, b + n))"

section \<open>Facts about the string operations\<close>

lemma not_space_chars:
  "\<not> is_space CHR ''-''" "\<not> is_space CHR ''#''" "\<not> is_space CHR ''[''"
  "\<not> is_space CHR '']''" "\<not> is_space CHR ''*''" "is_space CHR '' ''"
  by (simp_all add: is_space_def)

lemma rstrip_Nil_iff: "rstrip s = [] \<longleftrightarrow> (\<forall>c\<in>set s. is_space c)"
  by (simp add: rstrip_def dropWhile_eq_Nil_conv)

lemma rstrip_append:
  "rstrip (a @ b) = (if \<forall>c\<in>set b. is_space c then rstrip a else a @ rstrip b)"
  by (simp add: rstrip_def dropWhile_append)

lemma rstrip_idem: "rstrip (rstrip s) = rstrip s"
  by (simp add: rstrip_def)

lemma strip_rstrip: "strip (rstrip s) = strip s"
  by (simp add: strip_def rstrip_idem)

lemma strip_conv: "strip s = dropWhile is_space (rstrip s)"
  by (simp add: strip_def lstrip_def)

lemma strip_Nil_iff: "strip s = [] \<longleftrightarrow> (\<forall>c\<in>set s. is_space c)"
proof
  assume "strip s = []"
  then have "\<forall>c\<in>set (rstrip s). is_space c"
    by (simp add: strip_conv dropWhile_eq_Nil_conv)
  show "\<forall>c\<in>set s. is_space c"
  proof (rule ccontr)
    assume "\<not> (\<forall>c\<in>set s. is_space c)"
    then have "rstrip s \<noteq> []" by (simp add: rstrip_Nil_iff)
    then have "\<not> is_space (last (rstrip s))"
      unfolding rstrip_def
      by (metis (no_types, lifting) dropWhile_eq_Nil_conv hd_dropWhile last_rev rev_is_Nil_conv)
    with \<open>\<forall>c\<in>set (rstrip s). is_space c\<close> \<open>rstrip s \<noteq> []\<close> show False
      using last_in_set by blast
  qed
next
  assume "\<forall>c\<in>set s. is_space c"
  then have "rstrip s = []" by (simp add: rstrip_Nil_iff)
  then show "strip s = []" by (simp add: strip_conv)
qed

lemma strip_empty: "strip [] = []"
  by (simp add: strip_def rstrip_def lstrip_def)

lemma rstrip_last: "rstrip s \<noteq> [] \<Longrightarrow> \<not> is_space (last (rstrip s))"
  unfolding rstrip_def
  by (metis (no_types, lifting) dropWhile_eq_Nil_conv hd_dropWhile last_rev rev_is_Nil_conv)

lemma strip_last: "strip s \<noteq> [] \<Longrightarrow> \<not> is_space (last (strip s))"
proof -
  assume a: "strip s \<noteq> []"
  then have r: "rstrip s \<noteq> []" by (auto simp: strip_conv)
  have "last (dropWhile is_space (rstrip s)) = last (rstrip s)"
    using a by (metis strip_conv last_appendR takeWhile_dropWhile_id)
  then show ?thesis using rstrip_last[OF r] by (simp add: strip_conv)
qed

lemma strip_hd: "strip s \<noteq> [] \<Longrightarrow> \<not> is_space (hd (strip s))"
  by (simp add: strip_conv hd_dropWhile)

section \<open>The branches of the loop body\<close>

lemma startswith_Cons:
  "startswith (p # ps) s \<longleftrightarrow> (\<exists>t. s = p # t \<and> startswith ps t)"
  by (cases s) (auto simp: startswith_def)

lemma startswith_Nil [simp]: "startswith [] s"
  by (simp add: startswith_def)

lemma heading_shape:
  assumes "startswith (CHR ''#'' # ps) (rstrip raw)"
  shows "strip raw = rstrip raw" and "strip raw \<noteq> []" and "strip raw \<noteq> ''---''"
    and "match_cb (rstrip raw) = None" and "match_b (rstrip raw) = None"
proof -
  from assms obtain t where t: "rstrip raw = CHR ''#'' # t"
    by (auto simp: startswith_Cons)
  then show s: "strip raw = rstrip raw"
    by (simp add: strip_conv not_space_chars)
  from t s show "strip raw \<noteq> []" and "strip raw \<noteq> ''---''" by simp_all
  from t show "match_cb (rstrip raw) = None"
    by (simp add: match_cb_def not_space_chars startswith_def)
  from t show "match_b (rstrip raw) = None"
    by (simp add: match_b_def not_space_chars startswith_def)
qed

lemma parse_line_blank:
  "is_blank raw \<Longrightarrow> parse_line f raw = ([mk ''text'' [] 0 []], f)"
  by (simp add: parse_line_def is_blank_def strip_rstrip)

lemma parse_line_hr:
  "is_hr raw \<Longrightarrow> parse_line f raw = ([mk ''hr'' [] 0 []], True)"
  by (simp add: parse_line_def is_hr_def strip_rstrip)

lemma parse_line_h1:
  assumes "startswith ''# '' (rstrip raw)"
  shows "parse_line f raw =
     (case partition_str '' - '' (strip (drop 2 (rstrip raw))) of
        (main, _, rest) \<Rightarrow>
          ([mk ''h1'' (strip main) 0 []]
             @ (if strip rest \<noteq> [] then [mk ''text'' (strip rest) 0 []] else []), f))"
  using heading_shape(2,3)[OF assms] assms
  by (simp add: parse_line_def strip_rstrip Let_def)

lemma h2_not_h1: "startswith ''## '' s \<Longrightarrow> \<not> startswith ''# '' s"
  by (auto simp: startswith_Cons)

lemma h3_not_h1: "startswith ''### '' s \<Longrightarrow> \<not> startswith ''# '' s"
  by (auto simp: startswith_Cons)

lemma h3_not_h2: "startswith ''### '' s \<Longrightarrow> \<not> startswith ''## '' s"
  by (auto simp: startswith_Cons)

lemma parse_line_h2:
  assumes "startswith ''## '' (rstrip raw)"
  shows "parse_line f raw = ([mk ''h2'' (strip (drop 3 (rstrip raw))) 0 []], f)"
  using heading_shape(2,3)[OF assms] assms h2_not_h1[OF assms]
  by (simp add: parse_line_def strip_rstrip Let_def)

lemma parse_line_h3:
  assumes "startswith ''### '' (rstrip raw)"
  shows "parse_line f raw = ([mk ''h3'' (strip (drop 4 (rstrip raw))) 0 []], f)"
  using heading_shape(2,3)[OF assms] assms h3_not_h1[OF assms] h3_not_h2[OF assms]
  by (simp add: parse_line_def strip_rstrip Let_def)

lemma match_cb_shape:
  assumes "match_cb (rstrip raw) = Some g"
  shows "strip raw \<noteq> []" and "strip raw \<noteq> ''---''" and "\<not> is_heading raw"
proof -
  from assms have d: "startswith ''-'' (dropWhile is_space (rstrip raw))"
    and b: "startswith ''[ ]'' (dropWhile is_space (drop 1 (dropWhile is_space (rstrip raw))))"
    by (auto simp: match_cb_def Let_def split: if_splits)
  from d obtain t where "strip raw = CHR ''-'' # t"
    unfolding strip_conv by (auto simp: startswith_Cons)
  then show "strip raw \<noteq> []" by simp
  from b show "strip raw \<noteq> ''---''"
    by (auto simp: strip_conv startswith_Cons not_space_chars)
  show "\<not> is_heading raw"
  proof
    assume "is_heading raw"
    then obtain ps where "startswith (CHR ''#'' # ps) (rstrip raw)"
      by (auto simp: is_heading_def)
    from heading_shape(4)[OF this] assms show False by simp
  qed
qed

lemma match_b_shape:
  assumes "match_b (rstrip raw) = Some g"
  shows "strip raw \<noteq> []" and "strip raw \<noteq> ''---''" and "\<not> is_heading raw"
proof -
  from assms have d: "startswith ''-'' (dropWhile is_space (rstrip raw))
       \<or> startswith ''*'' (dropWhile is_space (rstrip raw))"
    and b: "takeWhile is_space (drop 1 (dropWhile is_space (rstrip raw))) \<noteq> []"
    by (auto simp: match_b_def Let_def split: if_splits)
  from d obtain c t where "strip raw = c # t"
    unfolding strip_conv by (auto simp: startswith_Cons)
  then show "strip raw \<noteq> []" by simp
  from b show "strip raw \<noteq> ''---''"
    by (auto simp: strip_conv not_space_chars)
  show "\<not> is_heading raw"
  proof
    assume "is_heading raw"
    then obtain ps where "startswith (CHR ''#'' # ps) (rstrip raw)"
      by (auto simp: is_heading_def)
    from heading_shape(5)[OF this] assms show False by simp
  qed
qed

lemma parse_line_cb:
  assumes "match_cb (rstrip raw) = Some (g1, g2)"
  shows "parse_line f raw =
     ([mk ''checkbox'' (strip g2) (length g1 div 2) (mention_spans (strip g2))], f)"
  using match_cb_shape[OF assms] assms
  by (simp add: parse_line_def strip_rstrip Let_def is_heading_def)

lemma parse_line_b:
  assumes "match_cb (rstrip raw) = None" and "match_b (rstrip raw) = Some (g1, g3)"
  shows "parse_line f raw =
     ([mk (if f then ''footer'' else ''bullet'') (strip g3) (length g1 div 2)
         (mention_spans (strip g3))], f)"
  using match_b_shape[OF assms(2)] assms
  by (simp add: parse_line_def strip_rstrip Let_def is_heading_def)

lemma parse_line_plain:
  assumes "\<not> is_blank raw" and "\<not> is_hr raw" and "\<not> is_heading raw"
    and "match_cb (rstrip raw) = None" and "match_b (rstrip raw) = None"
  shows "parse_line f raw =
     ([mk (if f then ''footer'' else ''text'') (strip raw) 0 (mention_spans (strip raw))], f)"
  using assms
  by (simp add: parse_line_def strip_rstrip Let_def is_heading_def is_blank_def is_hr_def)

lemma parse_line_snd: "snd (parse_line f raw) = (f \<or> is_hr raw)"
  by (auto simp: parse_line_def strip_rstrip Let_def is_hr_def
      split: option.splits prod.splits)

lemma not_checkbox_iff: "\<not> is_checkbox raw \<longleftrightarrow> match_cb (rstrip raw) = None"
  unfolding is_checkbox_def by blast

lemma not_bullet_iff: "\<not> is_bullet raw \<longleftrightarrow> match_b (rstrip raw) = None"
  unfolding is_bullet_def by blast

lemma checkbox_iff: "is_checkbox raw \<longleftrightarrow> (\<exists>g1 g2. match_cb (rstrip raw) = Some (g1, g2))"
  unfolding is_checkbox_def by auto

section \<open>The loop as a concatenation over the lines\<close>

lemma parse_line_cases [case_names blank hr h1 h2 h3 cb b plain]:
  obtains "is_blank raw"
  | "is_hr raw"
  | "startswith ''# '' (rstrip raw)"
  | "startswith ''## '' (rstrip raw)"
  | "startswith ''### '' (rstrip raw)"
  | g1 g2 where "match_cb (rstrip raw) = Some (g1, g2)"
  | g1 g3 where "match_cb (rstrip raw) = None" and "match_b (rstrip raw) = Some (g1, g3)"
  | "\<not> is_blank raw" and "\<not> is_hr raw" and "\<not> is_heading raw"
      and "match_cb (rstrip raw) = None" and "match_b (rstrip raw) = None"
  by (cases "match_cb (rstrip raw)"; cases "match_b (rstrip raw)")
     (auto simp: is_heading_def)

lemma parse_lines_acc: "parse_lines out f ls = out @ parse_lines [] f ls"
proof (induction ls arbitrary: out f)
  case Nil
  show ?case by simp
next
  case (Cons raw rest)
  obtain recs f' where p: "parse_line f raw = (recs, f')" by (cases "parse_line f raw")
  have "parse_lines (out @ recs) f' rest = (out @ recs) @ parse_lines [] f' rest"
    by (rule Cons.IH)
  moreover have "parse_lines ([] @ recs) f' rest = ([] @ recs) @ parse_lines [] f' rest"
    by (rule Cons.IH)
  ultimately show ?case using p by simp
qed

lemma parse_lines_Cons:
  "parse_lines [] f (raw # rest)
   = fst (parse_line f raw) @ parse_lines [] (snd (parse_line f raw)) rest"
  using parse_lines_acc[of "fst (parse_line f raw)" "snd (parse_line f raw)" rest]
  by (simp add: case_prod_beta)

lemma footer_after_iff: "footer_after f ls = (f \<or> list_ex is_hr ls)"
  by (induction ls arbitrary: f) (auto simp: parse_line_snd)

lemma in_footer_at_iff:
  "j \<le> length ls \<Longrightarrow> in_footer_at ls j = (\<exists>k<j. is_hr (ls ! k))"
proof -
  assume j: "j \<le> length ls"
  have "(\<exists>x\<in>set (take j ls). is_hr x) \<longleftrightarrow> (\<exists>k<j. is_hr (ls ! k))"
  proof
    assume "\<exists>x\<in>set (take j ls). is_hr x"
    then obtain i where "i < length (take j ls)" "is_hr (take j ls ! i)"
      by (auto simp: in_set_conv_nth)
    then have "i < j" "is_hr (ls ! i)" by simp_all
    then show "\<exists>k<j. is_hr (ls ! k)" by blast
  next
    assume "\<exists>k<j. is_hr (ls ! k)"
    then obtain k where k: "k < j" "is_hr (ls ! k)" by blast
    with j have "take j ls ! k \<in> set (take j ls)" by (intro nth_mem) simp
    with k show "\<exists>x\<in>set (take j ls). is_hr x" by auto
  qed
  then show ?thesis
    unfolding in_footer_at_def footer_after_iff list_ex_iff by simp
qed

lemma parse_lines_concat:
  "parse_lines [] f ls
   = concat (map (\<lambda>j. fst (parse_line (footer_after f (take j ls)) (ls ! j))) [0..<length ls])"
proof (induction ls arbitrary: f)
  case Nil
  show ?case by simp
next
  case (Cons raw rest)
  have "[0..<length (raw # rest)] = 0 # map Suc [0..<length rest]"
    by (simp add: upt_conv_Cons map_Suc_upt del: upt_Suc)
  then show ?case
    by (simp add: parse_lines_Cons Cons.IH comp_def del: upt_Suc parse_lines.simps(2))
qed

lemma parse_markdown_concat:
  "parse_markdown md
   = concat (map (line_records (split_lines md)) [0..<length (split_lines md)])"
  unfolding parse_markdown_def parse_lines_concat line_records_def in_footer_at_def ..

lemma rstrip_decomp: "\<exists>w. raw = rstrip raw @ w \<and> (\<forall>c\<in>set w. is_space c)"
proof -
  have "rev raw = takeWhile is_space (rev raw) @ dropWhile is_space (rev raw)" by simp
  then have "raw = rev (dropWhile is_space (rev raw)) @ rev (takeWhile is_space (rev raw))"
    by (metis rev_append rev_rev_ident)
  moreover have "\<forall>c\<in>set (rev (takeWhile is_space (rev raw))). is_space c"
    by (auto dest: set_takeWhileD)
  ultimately show ?thesis unfolding rstrip_def by blast
qed

lemma h1_raw:
  assumes "startswith ''# '' (rstrip raw)"
  shows "startswith ''# '' raw" and "strip (drop 2 (rstrip raw)) = strip (drop 2 raw)"
proof -
  from assms obtain t where t: "rstrip raw = ''# '' @ t"
    by (auto simp: startswith_Cons)
  obtain w where w: "raw = rstrip raw @ w" "\<forall>c\<in>set w. is_space c"
    using rstrip_decomp by blast
  from t w have raw: "raw = ''# '' @ t @ w" by simp
  then show "startswith ''# '' raw" by (simp add: startswith_def)
  have "drop 2 raw = t @ w" by (subst raw) simp
  then have "strip (drop 2 raw) = strip t"
    using w(2) by (simp add: strip_conv rstrip_append)
  then show "strip (drop 2 (rstrip raw)) = strip (drop 2 raw)" using t by simp
qed

lemma has_subtitle_h1:
  assumes "has_subtitle raw"
  shows "startswith ''# '' (rstrip raw)"
proof -
  from assms obtain r where raw: "raw = ''# '' @ r"
    by (auto simp: has_subtitle_def startswith_Cons)
  have "strip (drop 2 raw) \<noteq> []"
  proof
    assume "strip (drop 2 raw) = []"
    then have "strip (snd (snd (partition_str '' - '' (strip (drop 2 raw)))))
        = strip (snd (snd (partition_str '' - '' [])))"
      by (simp only:)
    then have "strip (snd (snd (partition_str '' - '' (strip (drop 2 raw))))) = []"
      by (simp add: strip_empty)
    with assms show False by (simp add: has_subtitle_def)
  qed
  then have "\<not> (\<forall>c\<in>set r. is_space c)" by (simp add: raw strip_Nil_iff)
  then have "rstrip (''# '' @ r) = ''# '' @ rstrip r"
    by (simp only: rstrip_append if_False)
  then have "rstrip raw = ''# '' @ rstrip r"
    by (simp only: raw)
  then show ?thesis by (simp add: startswith_def)
qed

lemma has_subtitle_iff:
  "has_subtitle raw \<longleftrightarrow>
     startswith ''# '' (rstrip raw)
     \<and> strip (snd (snd (partition_str '' - '' (strip (drop 2 (rstrip raw)))))) \<noteq> []"
  using has_subtitle_h1[of raw] h1_raw[of raw]
  by (auto simp: has_subtitle_def)

lemma length_parse_line:
  "length (fst (parse_line f raw)) = (if has_subtitle raw then 2 else 1)"
proof (cases raw rule: parse_line_cases)
  case h1
  then show ?thesis
    by (simp add: parse_line_h1 has_subtitle_iff split: prod.splits)
next
  case blank
  then have "\<not> has_subtitle raw"
    using heading_shape(2)[of "'' ''" raw] by (auto simp: has_subtitle_iff is_blank_def)
  with blank show ?thesis by (simp add: parse_line_blank)
next
  case hr
  then have "\<not> has_subtitle raw"
    using heading_shape(3)[of "'' ''" raw] by (auto simp: has_subtitle_iff is_hr_def)
  with hr show ?thesis by (simp add: parse_line_hr)
next
  case h2
  then have "\<not> has_subtitle raw"
    using h2_not_h1 by (auto simp: has_subtitle_iff)
  with h2 show ?thesis by (simp add: parse_line_h2)
next
  case h3
  then have "\<not> has_subtitle raw"
    using h3_not_h1 by (auto simp: has_subtitle_iff)
  with h3 show ?thesis by (simp add: parse_line_h3)
next
  case (cb g1 g2)
  then have "\<not> has_subtitle raw"
    using match_cb_shape(3)[of raw] by (auto simp: has_subtitle_iff is_heading_def)
  with cb show ?thesis by (simp add: parse_line_cb)
next
  case (b g1 g3)
  then have "\<not> has_subtitle raw"
    using match_b_shape(3)[of raw] by (auto simp: has_subtitle_iff is_heading_def)
  with b show ?thesis by (simp add: parse_line_b)
next
  case plain
  then have "\<not> has_subtitle raw"
    by (auto simp: has_subtitle_iff is_heading_def)
  with plain show ?thesis by (simp add: parse_line_plain)
qed

lemma length_parse_lines:
  "length (parse_lines [] f ls) = length ls + length (filter has_subtitle ls)"
  by (induction ls arbitrary: f) (simp_all add: parse_lines_Cons length_parse_line del: parse_lines.simps(2))

lemma kind_mk [simp]: "kind (mk k t l ms) = k" "text_field (mk k t l ms) = t"
   "level (mk k t l ms) = l" "mentions (mk k t l ms) = ms"
  by (simp_all add: mk_def)

lemma parse_line_kinds: "list_all (\<lambda>r. kind r \<in> set kinds) (fst (parse_line f raw))"
  by (cases raw rule: parse_line_cases)
     (simp_all add: parse_line_blank parse_line_hr parse_line_h1 parse_line_h2 parse_line_h3
        parse_line_cb parse_line_b parse_line_plain kinds_def split: prod.splits)

lemma parse_lines_kinds: "list_all (\<lambda>r. kind r \<in> set kinds) (parse_lines [] f ls)"
  by (induction ls arbitrary: f) (simp_all add: parse_lines_Cons parse_line_kinds del: parse_lines.simps(2))

section \<open>The mention scan finds the tokens\<close>

lemma not_word_at: "\<not> is_word CHR ''@''"
  by (simp add: is_word_def)


lemma mention_at_Cons:
  "mention_at (c # cs) 0 \<longleftrightarrow> c = CHR ''@'' \<and> takeWhile is_word cs \<noteq> []"
  "mention_at (c # cs) (Suc p) \<longleftrightarrow> mention_at cs p"
  by (simp_all add: mention_at_def)

lemma mention_end_Cons:
  "mention_end (c # cs) 0 = Suc (length (takeWhile is_word cs))"
  "mention_end (c # cs) (Suc p) = Suc (mention_end cs p)"
  by (simp_all add: mention_end_def)

lemma mention_tokens_Nil: "mention_tokens [] = []"
  by (simp add: mention_tokens_def)

lemma mention_tokens_Cons:
  "mention_tokens (c # cs) =
     (if c = CHR ''@'' \<and> takeWhile is_word cs \<noteq> []
      then [(0, Suc (length (takeWhile is_word cs)))] else [])
     @ map (shift 1) (mention_tokens cs)"
proof -
  have u: "[0..<length (c # cs)] = 0 # map Suc [0..<length cs]"
    by (simp add: upt_conv_Cons map_Suc_upt del: upt_Suc)
  show ?thesis
    unfolding mention_tokens_def u
    by (simp add: filter_map comp_def mention_at_Cons mention_end_Cons shift_def del: upt_Suc)
qed

lemma shift_comp: "shift m (shift n x) = shift (n + m) x"
  by (cases x) (simp add: shift_def)

lemma shift_shift: "map (shift m) (map (shift n) xs) = map (shift (n + m)) xs"
  by (simp add: shift_comp)

lemma mention_tokens_skip:
  "\<forall>c\<in>set w. is_word c \<Longrightarrow>
     mention_tokens (w @ r) = map (shift (length w)) (mention_tokens r)"
proof (induction w)
  case Nil
  show ?case by (simp add: shift_def)
next
  case (Cons c w)
  then have "c \<noteq> CHR ''@''" using not_word_at by auto
  with Cons show ?case
    by (simp add: mention_tokens_Cons shift_comp)
qed

lemma mention_scan_tokens: "mention_scan i s = map (shift i) (mention_tokens s)"
proof (induction i s rule: mention_scan.induct)
  case (1 i)
  show ?case by (simp add: mention_tokens_Nil)
next
  case (2 i c cs)
  let ?w = "takeWhile is_word cs"
  show ?case
  proof (cases "c = CHR ''@'' \<and> ?w \<noteq> []")
    case True
    have "mention_tokens cs = mention_tokens (?w @ dropWhile is_word cs)" by simp
    also have "\<dots> = map (shift (length ?w)) (mention_tokens (dropWhile is_word cs))"
      by (rule mention_tokens_skip) (auto dest: set_takeWhileD)
    finally have t: "mention_tokens cs
        = map (shift (length ?w)) (mention_tokens (dropWhile is_word cs))" .
    have "mention_scan (i + 1 + length ?w) (dropWhile is_word cs)
        = map (shift (i + 1 + length ?w)) (mention_tokens (dropWhile is_word cs))"
      using "2.IH"(1) True by simp
    also have "\<dots> = map (shift i) (map (shift 1) (mention_tokens cs))"
      unfolding t by (simp add: shift_comp add.commute add.left_commute)
    finally show ?thesis using True
      by (simp add: mention_tokens_Cons shift_def)
  next
    case False
    have "mention_scan (i + 1) cs = map (shift (i + 1)) (mention_tokens cs)"
      using "2.IH"(2) False by simp
    then show ?thesis using False
      by (auto simp add: mention_tokens_Cons shift_comp add.commute)
  qed
qed

lemma mention_spans_tokens: "mention_spans s = mention_tokens s"
  by (simp add: mention_spans_def mention_scan_tokens shift_def)

lemma mention_tokens_mem:
  "(s, e) \<in> set (mention_tokens t) \<longleftrightarrow> mention_at t s \<and> e = mention_end t s"
  by (auto simp: mention_tokens_def mention_at_def)

lemma token_bounds:
  assumes "mention_at t s"
  shows "Suc s < mention_end t s" and "mention_end t s \<le> length t" and "t ! s = CHR ''@''"
proof -
  from assms have s: "s < length t" and w: "takeWhile is_word (drop (Suc s) t) \<noteq> []"
    by (simp_all add: mention_at_def)
  from w show "Suc s < mention_end t s" by (simp add: mention_end_def)
  have "length (takeWhile is_word (drop (Suc s) t)) \<le> length (drop (Suc s) t)"
    by (rule length_takeWhile_le)
  with s show "mention_end t s \<le> length t" by (simp add: mention_end_def)
  from assms show "t ! s = CHR ''@''" by (simp add: mention_at_def)
qed

lemma token_word:
  assumes "s < k" and "k < mention_end t s"
  shows "is_word (t ! k)"
proof -
  let ?d = "drop (Suc s) t"
  from assms have j: "k - Suc s < length (takeWhile is_word ?d)"
    by (simp add: mention_end_def)
  then have "takeWhile is_word ?d ! (k - Suc s) \<in> set (takeWhile is_word ?d)"
    by (rule nth_mem)
  then have "is_word (takeWhile is_word ?d ! (k - Suc s))"
    by (rule set_takeWhileD[THEN conjunct2])
  moreover have "takeWhile is_word ?d ! (k - Suc s) = ?d ! (k - Suc s)"
    using j by (rule takeWhile_nth)
  moreover have "k - Suc s < length ?d"
    using j length_takeWhile_le[of is_word ?d] by linarith
  then have "?d ! (k - Suc s) = t ! k"
    using assms(1) by simp
  ultimately show ?thesis by simp
qed

lemma token_maximal:
  assumes "mention_end t s < length t"
  shows "\<not> is_word (t ! mention_end t s)"
proof -
  let ?d = "drop (Suc s) t"
  from assms have "length (takeWhile is_word ?d) < length ?d"
    by (simp add: mention_end_def)
  then have "\<not> is_word (?d ! length (takeWhile is_word ?d))"
    by (rule nth_length_takeWhile)
  moreover have "?d ! length (takeWhile is_word ?d) = t ! mention_end t s"
    using assms by (simp add: mention_end_def)
  ultimately show ?thesis by simp
qed

lemma tokens_apart:
  assumes "mention_at t p" and "mention_at t q" and "p < q"
  shows "mention_end t p \<le> q"
proof (rule ccontr)
  assume "\<not> mention_end t p \<le> q"
  then have "is_word (t ! q)" using assms(3) by (intro token_word[of p q t]) simp_all
  moreover have "t ! q = CHR ''@''" using assms(2) by (simp add: mention_at_def)
  ultimately show False using not_word_at by simp
qed

lemma mention_tokens_sorted:
  "sorted_wrt (\<lambda>a b. snd a \<le> fst b) (mention_tokens t)"
proof -
  have "sorted_wrt (<) (filter (mention_at t) [0..<length t])"
    by (rule sorted_wrt_filter) (simp add: sorted_wrt_upt)
  then have "sorted_wrt (\<lambda>p q. mention_end t p \<le> q) (filter (mention_at t) [0..<length t])"
    by (rule sorted_wrt_mono_rel[rotated]) (auto intro: tokens_apart)
  then show ?thesis
    by (simp add: mention_tokens_def sorted_wrt_map)
qed

lemma occurs_Nil: "occurs sep [] \<longleftrightarrow> sep = []"
  by (auto simp: occurs_def startswith_def)

lemma occurs_iff: "occurs sep s \<longleftrightarrow> (\<exists>i\<le>length s. startswith sep (drop i s))"
  unfolding occurs_def list_ex_iff set_upt
  by (auto simp: less_Suc_eq_le)

lemma occurs_Cons: "occurs sep (c # cs) \<longleftrightarrow> startswith sep (c # cs) \<or> occurs sep cs"
proof
  assume "occurs sep (c # cs)"
  then obtain i where "i \<le> Suc (length cs)" "startswith sep (drop i (c # cs))"
    by (auto simp: occurs_iff)
  then show "startswith sep (c # cs) \<or> occurs sep cs"
    by (cases i) (auto simp: occurs_iff)
next
  assume "startswith sep (c # cs) \<or> occurs sep cs"
  then show "occurs sep (c # cs)"
  proof
    assume "startswith sep (c # cs)"
    then have "0 \<le> length (c # cs)" "startswith sep (drop 0 (c # cs))" by simp_all
    then show ?thesis unfolding occurs_iff by blast
  next
    assume "occurs sep cs"
    then obtain i where "i \<le> length cs" "startswith sep (drop i cs)"
      by (auto simp: occurs_iff)
    then have "Suc i \<le> length (c # cs)" "startswith sep (drop (Suc i) (c # cs))"
      by simp_all
    then show ?thesis unfolding occurs_iff by blast
  qed
qed

lemma startswith_split:
  "sep \<noteq> [] \<Longrightarrow> startswith sep (c # cs) \<Longrightarrow> c # cs = sep @ drop (length sep - 1) cs"
proof -
  assume a: "sep \<noteq> []" "startswith sep (c # cs)"
  have "c # cs = take (length sep) (c # cs) @ drop (length sep) (c # cs)" by simp
  also have "take (length sep) (c # cs) = sep" using a(2) by (simp add: startswith_def)
  also have "drop (length sep) (c # cs) = drop (length sep - 1) cs"
    using a(1) by (cases sep) simp_all
  finally show ?thesis .
qed

lemma partition_str_found:
  "sep \<noteq> [] \<Longrightarrow> occurs sep s \<Longrightarrow> \<exists>a b. partition_str sep s = (a, sep, b) \<and> s = a @ sep @ b"
proof (induction s)
  case Nil
  then show ?case by (simp add: occurs_Nil)
next
  case (Cons c cs)
  show ?case
  proof (cases "startswith sep (c # cs)")
    case True
    with Cons.prems(1)
    have "partition_str sep (c # cs) = ([], sep, drop (length sep - 1) cs)" by simp
    moreover have "c # cs = [] @ sep @ drop (length sep - 1) cs"
      using startswith_split[OF Cons.prems(1) True] by simp
    ultimately show ?thesis by blast
  next
    case False
    with Cons.prems have "occurs sep cs" by (simp add: occurs_Cons)
    from Cons.IH[OF Cons.prems(1) this] obtain a b
      where "partition_str sep cs = (a, sep, b)" "cs = a @ sep @ b" by blast
    with False show ?thesis by simp
  qed
qed

lemma partition_str_not_found: "\<not> occurs sep s \<Longrightarrow> partition_str sep s = (s, [], [])"
  by (induction s) (auto simp: occurs_Cons)

lemma has_separator_iff: "has_separator raw \<longleftrightarrow> has_subtitle raw"
proof (cases "startswith ''# '' raw")
  case False
  then show ?thesis by (simp add: has_separator_def has_subtitle_def)
next
  case True
  let ?t = "strip (drop 2 raw)"
  show ?thesis
  proof (cases "occurs '' - '' ?t")
    case False
    then show ?thesis
      by (simp add: has_separator_def has_subtitle_def partition_str_not_found strip_empty)
  next
    case occ: True
    then obtain a b where p: "partition_str '' - '' ?t = (a, '' - '', b)"
      and t: "?t = a @ '' - '' @ b"
      using partition_str_found[of "'' - ''" ?t] by auto
    from t have ne: "?t \<noteq> []" by simp
    have "b \<noteq> []"
    proof
      assume "b = []"
      with t have "last ?t = CHR '' ''" by simp
      with strip_last[OF ne] show False by (simp add: not_space_chars)
    qed
    then have "last b = last ?t" by (subst t) simp
    with strip_last[OF ne] \<open>b \<noteq> []\<close> have "\<exists>c\<in>set b. \<not> is_space c"
      using last_in_set by metis
    then have "strip b \<noteq> []" by (simp add: strip_Nil_iff)
    with True occ p show ?thesis
      by (simp add: has_separator_def has_subtitle_def)
  qed
qed

lemma split_nonempty: "split sep s \<noteq> []"
  by (induction s) (auto split: list.splits)

lemma split_single_free: "l \<in> set (split [c] s) \<Longrightarrow> c \<notin> set l"
proof (induction s arbitrary: l)
  case Nil
  then show ?case by simp
next
  case (Cons x xs)
  show ?case
  proof (cases "x = c")
    case True
    with Cons show ?thesis by (auto simp: startswith_def)
  next
    case False
    obtain w ws where s: "split [c] xs = w # ws"
      using split_nonempty[of "[c]" xs] by (cases "split [c] xs") auto
    with False Cons.prems have "l = x # w \<or> l \<in> set ws"
      by (auto simp: startswith_def)
    with Cons.IH s False show ?thesis by auto
  qed
qed

lemma split_lines_no_LF: "l \<in> set (split_lines md) \<Longrightarrow> CHR 0x0A \<notin> set l"
  unfolding split_lines_def by (rule split_single_free)

section \<open>Kinds of the records of a line\<close>

lemma in_footer_after_hr:
  "i < j \<Longrightarrow> j \<le> length ls \<Longrightarrow> is_hr (ls ! i) \<Longrightarrow> in_footer_at ls j"
  by (auto simp: in_footer_at_iff)

lemma kinds_checkbox:
  "is_checkbox raw \<Longrightarrow> map kind (fst (parse_line f raw)) = [''checkbox'']"
  by (auto simp: checkbox_iff parse_line_cb)

lemma kinds_hr: "is_hr raw \<Longrightarrow> fst (parse_line f raw) = [mk ''hr'' [] 0 []]"
  by (simp add: parse_line_hr)

lemma kinds_footer:
  assumes "\<not> is_blank raw" and "\<not> is_hr raw" and "\<not> is_heading raw" and "\<not> is_checkbox raw"
  shows "map kind (fst (parse_line True raw)) = [''footer'']"
proof (cases "match_b (rstrip raw)")
  case None
  with assms show ?thesis by (simp add: parse_line_plain not_checkbox_iff)
next
  case (Some g)
  with assms show ?thesis by (cases g) (simp add: parse_line_b not_checkbox_iff)
qed

lemma kinds_no_footer:
  "list_all (\<lambda>r. kind r \<noteq> ''footer'') (fst (parse_line False raw))"
  by (cases raw rule: parse_line_cases)
     (simp_all add: parse_line_blank parse_line_hr parse_line_h1 parse_line_h2 parse_line_h3
        parse_line_cb parse_line_b parse_line_plain split: prod.splits)

lemma kinds_heading:
  assumes "is_heading raw"
  shows "map kind (fst (parse_line f raw)) =
     (if startswith ''# '' (rstrip raw)
      then (if has_subtitle raw then [''h1'', ''text''] else [''h1''])
      else if startswith ''## '' (rstrip raw) then [''h2''] else [''h3''])"
proof -
  consider "startswith ''# '' (rstrip raw)"
    | "\<not> startswith ''# '' (rstrip raw)" "startswith ''## '' (rstrip raw)"
    | "\<not> startswith ''# '' (rstrip raw)" "\<not> startswith ''## '' (rstrip raw)"
      "startswith ''### '' (rstrip raw)"
    using assms by (auto simp: is_heading_def)
  then show ?thesis
  proof cases
    case 1
    then show ?thesis
      by (simp add: parse_line_h1 has_subtitle_iff split: prod.splits)
  next
    case 2
    then show ?thesis by (simp add: parse_line_h2)
  next
    case 3
    then show ?thesis by (simp add: parse_line_h3)
  qed
qed

section \<open>Mentions of the records of a line\<close>

lemma mention_at_iff:
  "mention_at t p \<longleftrightarrow> Suc p < length t \<and> t ! p = CHR ''@'' \<and> is_word (t ! Suc p)"
proof (cases "Suc p < length t")
  case True
  then have "drop (Suc p) t = t ! Suc p # drop (Suc (Suc p)) t"
    by (simp add: Cons_nth_drop_Suc)
  with True show ?thesis by (simp add: mention_at_def)
next
  case False
  then show ?thesis by (simp add: mention_at_def)
qed

lemma mentions_line:
  "list_all (\<lambda>r.
       (kind r \<in> set [''checkbox'', ''bullet'', ''footer'']
          \<longrightarrow> mentions r = mention_tokens (text_field r))
     \<and> (kind r \<in> set [''h1'', ''h2'', ''h3'', ''hr''] \<longrightarrow> mentions r = [])
     \<and> (kind r = ''text'' \<and> \<not> startswith ''# '' (rstrip raw)
          \<longrightarrow> mentions r = mention_tokens (text_field r))
     \<and> (startswith ''# '' (rstrip raw) \<longrightarrow> mentions r = []))
   (fst (parse_line f raw))"
proof (cases raw rule: parse_line_cases)
  case blank
  then show ?thesis by (simp add: parse_line_blank mention_tokens_Nil)
next
  case hr
  then show ?thesis by (simp add: parse_line_hr)
next
  case h1
  then show ?thesis by (simp add: parse_line_h1 split: prod.splits)
next
  case h2
  then show ?thesis using h2_not_h1 by (simp add: parse_line_h2)
next
  case h3
  then show ?thesis using h3_not_h1 by (simp add: parse_line_h3)
next
  case (cb g1 g2)
  with match_cb_shape(3)[OF cb] show ?thesis
    by (simp add: parse_line_cb is_heading_def mention_spans_tokens)
next
  case (b g1 g3)
  with match_b_shape(3)[OF b(2)] show ?thesis
    by (simp add: parse_line_b is_heading_def mention_spans_tokens)
next
  case plain
  then show ?thesis
    by (simp add: parse_line_plain is_heading_def mention_spans_tokens)
qed

lemma parse_lines_all:
  assumes "\<And>f raw. list_all P (fst (parse_line f raw))"
  shows "list_all P (parse_lines [] f ls)"
  by (induction ls arbitrary: f)
     (simp_all add: parse_lines_Cons assms del: parse_lines.simps(2))

lemma mentions_by_kind:
  "list_all (\<lambda>r.
       (kind r \<in> set [''checkbox'', ''bullet'', ''footer'']
          \<longrightarrow> mentions r = mention_spans (text_field r))
     \<and> (kind r \<in> set [''h1'', ''h2'', ''h3'', ''hr''] \<longrightarrow> mentions r = []))
   (fst (parse_line f raw))"
  using mentions_line[of raw f]
  by (simp add: list_all_iff mention_spans_tokens)

lemma mentions_none_or_all:
  "list_all (\<lambda>r. mentions r = [] \<or> mentions r = mention_spans (text_field r))
     (fst (parse_line f raw))"
  by (cases raw rule: parse_line_cases)
     (simp_all add: parse_line_blank parse_line_hr parse_line_h1 parse_line_h2 parse_line_h3
        parse_line_cb parse_line_b parse_line_plain split: prod.splits)

lemma span_valid:
  assumes "(s, e) \<in> set (mention_spans t)"
  shows "Suc s < e" and "e \<le> length t" and "t ! s = CHR ''@''"
    and "\<And>k. s < k \<Longrightarrow> k < e \<Longrightarrow> is_word (t ! k)"
    and "e < length t \<Longrightarrow> \<not> is_word (t ! e)"
proof -
  from assms have a: "mention_at t s" and e: "e = mention_end t s"
    by (simp_all add: mention_spans_tokens mention_tokens_mem)
  from token_bounds[OF a] e show "Suc s < e" "e \<le> length t" "t ! s = CHR ''@''"
    by simp_all
  show "\<And>k. s < k \<Longrightarrow> k < e \<Longrightarrow> is_word (t ! k)"
    using token_word[of s _ t] e by simp
  show "e < length t \<Longrightarrow> \<not> is_word (t ! e)"
    using token_maximal[of t s] e by simp
qed

lemma spans_in_range:
  "list_all (\<lambda>r. list_all (\<lambda>(s, e). s < e \<and> e \<le> length (text_field r)) (mentions r))
     (fst (parse_line f raw))"
proof -
  have "list_all (\<lambda>(s, e). s < e \<and> e \<le> length t) (mention_spans t)" for t
    using span_valid(1,2)[of _ _ t] by (fastforce simp: list_all_iff)
  then have "list_all (\<lambda>(s, e). s < e \<and> e \<le> length (text_field r)) (mentions r)"
    if "mentions r = [] \<or> mentions r = mention_spans (text_field r)" for r :: Paragraph
    using that by auto
  with mentions_none_or_all[of f raw] show ?thesis
    unfolding list_all_iff[of _ "fst (parse_line f raw)"] by blast
qed

section \<open>Lines with the box right after the dash\<close>

lemma rest_group_Some: "CHR 0x0A \<notin> set r \<Longrightarrow> rest_group r = Some r"
proof -
  assume a: "CHR 0x0A \<notin> set r"
  show ?thesis
  proof (cases "r \<noteq> [] \<and> last r = CHR 0x0A")
    case True
    then have "CHR 0x0A \<in> set r" using last_in_set by metis
    with a show ?thesis by simp
  next
    case False
    with a show ?thesis by (auto simp: rest_group_def)
  qed
qed

lemma set_strip: "set (strip x) \<subseteq> set x"
proof
  fix c assume "c \<in> set (strip x)"
  then have "c \<in> set (rstrip x)" unfolding strip_conv by (rule set_dropWhileD)
  then have "c \<in> set (dropWhile is_space (rev x))" by (simp add: rstrip_def)
  then have "c \<in> set (rev x)" by (rule set_dropWhileD)
  then show "c \<in> set x" by simp
qed

lemma rstrip_dash_box: "rstrip (pre @ ''-[ ]'' @ x) = pre @ ''-[ ]'' @ rstrip x"
proof -
  have b: "rstrip ''-[ ]'' = ''-[ ]''" by (simp add: rstrip_def not_space_chars)
  have "rstrip (''-[ ]'' @ x) = ''-[ ]'' @ rstrip x"
  proof (cases "\<forall>c\<in>set x. is_space c")
    case True
    then have "rstrip x = []" by (simp add: rstrip_Nil_iff)
    with True show ?thesis by (simp only: rstrip_append b if_cancel append_Nil2)
  next
    case False
    then show ?thesis by (simp only: rstrip_append if_False)
  qed
  moreover have "\<not> (\<forall>c\<in>set (''-[ ]'' @ x). is_space c)"
    by (simp add: not_space_chars)
  ultimately show ?thesis by (simp only: rstrip_append if_False)
qed

lemma starts_space_rstrip:
  "takeWhile is_space (rstrip x) \<noteq> [] \<longleftrightarrow> takeWhile is_space x \<noteq> [] \<and> strip x \<noteq> []"
proof -
  obtain w where w: "x = rstrip x @ w" "\<forall>c\<in>set w. is_space c"
    using rstrip_decomp by blast
  show ?thesis
  proof (cases "rstrip x")
    case Nil
    then have "strip x = []" by (simp add: strip_conv)
    with Nil show ?thesis by simp
  next
    case (Cons c r)
    then have "\<not> (\<forall>c\<in>set x. is_space c)" using rstrip_Nil_iff[of x] by simp
    then have s: "strip x \<noteq> []" by (simp add: strip_Nil_iff)
    from w(1) Cons have "x = c # (r @ w)" by simp
    then have "takeWhile is_space x \<noteq> [] \<longleftrightarrow> is_space c" by (metis takeWhile.simps(2) list.distinct(1))
    with Cons s show ?thesis by simp
  qed
qed

lemma dash_box_line:
  assumes pre: "\<forall>c\<in>set pre. is_space c"
  shows "match_b (pre @ ''-[ ]'' @ y) = None"
    and "match_cb (pre @ ''-[ ]'' @ y) =
          (if takeWhile is_space y = [] then None
           else (case rest_group (dropWhile is_space y) of
                   None \<Rightarrow> None | Some g2 \<Rightarrow> Some (pre, g2)))"
    and "dropWhile is_space (pre @ ''-[ ]'' @ y) = ''-[ ]'' @ y"
    and "\<not> startswith (CHR ''#'' # ps) (pre @ ''-[ ]'' @ y)"
proof -
  have t: "takeWhile is_space (pre @ ''-[ ]'' @ y) = pre"
    using pre by (simp add: takeWhile_append2 not_space_chars)
  have d: "dropWhile is_space (pre @ ''-[ ]'' @ y) = ''-[ ]'' @ y"
    using pre by (simp add: dropWhile_append2 not_space_chars)
  show "dropWhile is_space (pre @ ''-[ ]'' @ y) = ''-[ ]'' @ y" by (rule d)
  show "match_b (pre @ ''-[ ]'' @ y) = None"
    unfolding match_b_def t d by (simp add: startswith_def not_space_chars)
  show "match_cb (pre @ ''-[ ]'' @ y) =
          (if takeWhile is_space y = [] then None
           else (case rest_group (dropWhile is_space y) of
                   None \<Rightarrow> None | Some g2 \<Rightarrow> Some (pre, g2)))"
    unfolding match_cb_def t d by (simp add: startswith_def not_space_chars Let_def)
  show "\<not> startswith (CHR ''#'' # ps) (pre @ ''-[ ]'' @ y)"
  proof (cases pre)
    case Nil
    then show ?thesis by (simp add: startswith_Cons)
  next
    case (Cons c r)
    with pre have "is_space c" by simp
    then have "c \<noteq> CHR ''#''" using not_space_chars by auto
    with Cons show ?thesis by (simp add: startswith_Cons)
  qed
qed

lemma dash_box_parse:
  assumes pre: "\<forall>c\<in>set pre. is_space c" and lf: "CHR 0x0A \<notin> set x"
  shows "is_checkbox (pre @ ''-[ ]'' @ x) \<longleftrightarrow> takeWhile is_space x \<noteq> [] \<and> strip x \<noteq> []"
    and "map kind (fst (parse_line f (pre @ ''-[ ]'' @ x))) =
          [if takeWhile is_space x \<noteq> [] \<and> strip x \<noteq> [] then ''checkbox''
           else if f then ''footer'' else ''text'']"
proof -
  let ?raw = "pre @ ''-[ ]'' @ x"
  have r: "rstrip ?raw = pre @ ''-[ ]'' @ rstrip x" by (rule rstrip_dash_box)
  have "CHR 0x0A \<notin> set (strip x)" using lf set_strip by blast
  then have g: "rest_group (dropWhile is_space (rstrip x)) = Some (strip x)"
    unfolding strip_conv[symmetric] by (rule rest_group_Some)
  have cb: "match_cb (rstrip ?raw) =
      (if takeWhile is_space x \<noteq> [] \<and> strip x \<noteq> [] then Some (pre, strip x) else None)"
    unfolding r dash_box_line(2)[OF pre] g starts_space_rstrip[symmetric] by simp
  then show c: "is_checkbox ?raw \<longleftrightarrow> takeWhile is_space x \<noteq> [] \<and> strip x \<noteq> []"
    by (simp add: is_checkbox_def)
  show "map kind (fst (parse_line f ?raw)) =
          [if takeWhile is_space x \<noteq> [] \<and> strip x \<noteq> [] then ''checkbox''
           else if f then ''footer'' else ''text'']"
  proof (cases "takeWhile is_space x \<noteq> [] \<and> strip x \<noteq> []")
    case True
    with c show ?thesis by (simp add: kinds_checkbox)
  next
    case False
    with cb have n: "match_cb (rstrip ?raw) = None" by simp
    have b: "match_b (rstrip ?raw) = None" unfolding r by (rule dash_box_line(1)[OF pre])
    have s: "strip ?raw = ''-[ ]'' @ rstrip x"
      unfolding strip_conv r by (rule dash_box_line(3)[OF pre])
    then have "\<not> is_blank ?raw" "\<not> is_hr ?raw" by (simp_all add: is_blank_def is_hr_def)
    moreover have "\<not> is_heading ?raw"
      unfolding is_heading_def r using dash_box_line(4)[OF pre] by blast
    ultimately show ?thesis using n b False by (simp add: parse_line_plain)
  qed
qed

section \<open>Concrete parses\<close>

text \<open>
  Claim C1. The six-line input of the end-to-end scenario (lines separated by LF) is parsed
  into exactly seven records, in this order: h1 "Team Sync"; text "Weekly"; h2
  "Action Items"; checkbox "@alice sends report" at level 0 with the mention span (0, 6);
  checkbox "follow up" at level 1; hr with empty text; footer "Next meeting Friday" at
  level 0.
\<close>

theorem C1_end_to_end:
  "parse_markdown
     (''# Team Sync - Weekly'' @ [CHR 0x0A] @ ''## Action Items'' @ [CHR 0x0A]
        @ ''- [ ] @alice sends report'' @ [CHR 0x0A] @ ''  - [ ] follow up'' @ [CHR 0x0A]
        @ ''---'' @ [CHR 0x0A] @ ''- Next meeting Friday'')
   = [\<lparr>kind = ''h1'', text_field = ''Team Sync'', level = 0, mentions = []\<rparr>,
      \<lparr>kind = ''text'', text_field = ''Weekly'', level = 0, mentions = []\<rparr>,
      \<lparr>kind = ''h2'', text_field = ''Action Items'', level = 0, mentions = []\<rparr>,
      \<lparr>kind = ''checkbox'', text_field = ''@alice sends report'', level = 0,
         mentions = [(0, 6)]\<rparr>,
      \<lparr>kind = ''checkbox'', text_field = ''follow up'', level = 1, mentions = []\<rparr>,
      \<lparr>kind = ''hr'', text_field = [], level = 0, mentions = []\<rparr>,
      \<lparr>kind = ''footer'', text_field = ''Next meeting Friday'', level = 0,
         mentions = []\<rparr>]"
  by code_simp

text \<open>
  Claim C10. The empty string is parsed into exactly one record: kind text, empty text,
  level 0, no mentions. Splitting the empty string gives one empty line, which is blank.
\<close>

theorem C10_empty_input:
  "split_lines [] = [[]] \<and>
   parse_markdown [] = [\<lparr>kind = ''text'', text_field = [], level = 0, mentions = []\<rparr>]"
  by code_simp

section \<open>Counting records\<close>

text \<open>
  Claim C3. For every input, the number of records \<^verbatim>\<open>parse_markdown\<close> returns is the
  number of input lines (CRLF and CR turned into LF, then split at LF) plus one for every
  line that starts with "# " and whose part after the first " - " is not empty once
  trimmed. The heading content that is split is the text after the prefix, trimmed, as
  the heading rule has it.
\<close>

theorem C3_line_count:
  "length (parse_markdown md)
   = length (split_lines md) + length (filter has_subtitle (split_lines md))"
  by (simp add: parse_markdown_def length_parse_lines)

section \<open>Totality\<close>

text \<open>
  Claim C7. \<^verbatim>\<open>parse_markdown\<close> is total. Every function of the model is a total
  function whose recursion is structural or has a termination proof, and none of the
  operations of the source on a \<^verbatim>\<open>str\<close> (replace, split, rstrip, strip, startswith,
  slicing, partition with a constant separator, \<^verbatim>\<open>re.match\<close>, \<^verbatim>\<open>finditer\<close>) raises,
  so the model has no error value. For every input all the records returned have one of
  the eight kinds, and a line that is not blank, not a rule, not a heading and that
  neither the checkbox nor the bullet pattern matches is handled by the plain-text branch:
  one record with the trimmed line as text, kind text (footer in footer mode).
\<close>

theorem C7_total:
  "list_all (\<lambda>r. kind r \<in> set kinds) (parse_markdown md)
   \<and> (\<not> is_blank raw \<and> \<not> is_hr raw \<and> \<not> is_heading raw \<and> \<not> is_checkbox raw
        \<and> \<not> is_bullet raw
      \<longrightarrow> parse_line f raw
          = ([\<lparr>kind = (if f then ''footer'' else ''text''), text_field = strip raw,
               level = 0, mentions = mention_spans (strip raw)\<rparr>], f))"
proof (intro conjI impI)
  show "list_all (\<lambda>r. kind r \<in> set kinds) (parse_markdown md)"
    by (simp add: parse_markdown_def parse_lines_kinds)
next
  assume a: "\<not> is_blank raw \<and> \<not> is_hr raw \<and> \<not> is_heading raw \<and> \<not> is_checkbox raw
        \<and> \<not> is_bullet raw"
  then have "match_cb (rstrip raw) = None" and "match_b (rstrip raw) = None"
    using not_checkbox_iff not_bullet_iff by blast+
  with a have "parse_line f raw =
     ([mk (if f then ''footer'' else ''text'') (strip raw) 0 (mention_spans (strip raw))], f)"
    by (intro parse_line_plain) simp_all
  then show "parse_line f raw
      = ([\<lparr>kind = (if f then ''footer'' else ''text''), text_field = strip raw,
           level = 0, mentions = mention_spans (strip raw)\<rparr>], f)"
    by (simp add: mk_def)
qed

text \<open>The hypotheses of C7 hold for the line "hello @bob".\<close>

theorem C7_total_witness:
  "list_all (\<lambda>r. kind r \<in> set kinds) (parse_markdown ''hello @bob'')
   \<and> \<not> is_blank ''hello @bob'' \<and> \<not> is_hr ''hello @bob'' \<and> \<not> is_heading ''hello @bob''
   \<and> \<not> is_checkbox ''hello @bob'' \<and> \<not> is_bullet ''hello @bob''
   \<and> parse_line False ''hello @bob''
       = ([\<lparr>kind = ''text'', text_field = ''hello @bob'', level = 0, mentions = [(6, 10)]\<rparr>],
          False)"
proof -
  have h: "\<not> is_blank ''hello @bob''" "\<not> is_hr ''hello @bob''" "\<not> is_heading ''hello @bob''"
    "\<not> is_checkbox ''hello @bob''" "\<not> is_bullet ''hello @bob''"
    by code_simp+
  have e: "strip ''hello @bob'' = ''hello @bob''" "mention_spans ''hello @bob'' = [(6, 10)]"
    by code_simp+
  from C7_total[of "''hello @bob''" "''hello @bob''" False] h e show ?thesis by simp
qed


section \<open>Footer mode\<close>

text \<open>
  In the theorems of this section \<open>ls\<close> is the list of lines of the input, \<open>line_records ls j\<close>
  the records the loop appends for line \<open>j\<close> and \<open>in_footer_at ls j\<close> the value of the
  footer-mode flag when the loop reaches line \<open>j\<close>; the first conjunct of each theorem
  says that the result of \<^verbatim>\<open>parse_markdown\<close> is these records, line after line.
\<close>

text \<open>
  Claim C2, as stated, fails on the input "---", "foo", "---" (three lines). The line at
  position 2 trims to "---", and the line "foo" before it is emitted with kind footer; the
  line at position 0 trims to "---", and the line at position 2 after it, which is not
  blank, not a heading and not a checkbox line, is emitted with kind hr, not footer.
\<close>

theorem C2_counterexample:
  "split_lines (''---'' @ [CHR 0x0A] @ ''foo'' @ [CHR 0x0A] @ ''---'') = [''---'', ''foo'', ''---'']
   \<and> is_hr ([''---'', ''foo'', ''---''] ! 2)
   \<and> map kind (line_records [''---'', ''foo'', ''---''] 1) = [''footer'']
   \<and> is_hr ([''---'', ''foo'', ''---''] ! 0)
   \<and> \<not> is_blank ([''---'', ''foo'', ''---''] ! 2)
   \<and> \<not> is_heading ([''---'', ''foo'', ''---''] ! 2)
   \<and> \<not> is_checkbox ([''---'', ''foo'', ''---''] ! 2)
   \<and> map kind (line_records [''---'', ''foo'', ''---''] 2) = [''hr'']
   \<and> map kind (parse_markdown (''---'' @ [CHR 0x0A] @ ''foo'' @ [CHR 0x0A] @ ''---''))
       = [''hr'', ''footer'', ''hr'']"
  by code_simp

text \<open>
  Claim C2, amended. For any input with a line that trims to "---" at position \<open>i\<close>:
  every line after position \<open>i\<close> that is not blank, not a heading line, not a checkbox line
  and not itself a "---" line is emitted with kind footer; if position \<open>i\<close> is the first
  such line, no line before it is emitted with kind footer; the footer-mode flag is set
  at every later position of the parse, up to its end; and every "---" line emits its own
  hr record.
\<close>

theorem C2_footer_latch:
  assumes "ls = split_lines md" and "i < length ls" and "is_hr (ls ! i)"
  shows "parse_markdown md = concat (map (line_records ls) [0..<length ls])
       \<and> (\<forall>j. i < j \<and> j < length ls \<and> \<not> is_blank (ls ! j) \<and> \<not> is_heading (ls ! j)
               \<and> \<not> is_checkbox (ls ! j) \<and> \<not> is_hr (ls ! j)
             \<longrightarrow> map kind (line_records ls j) = [''footer''])
       \<and> ((\<forall>k<i. \<not> is_hr (ls ! k))
             \<longrightarrow> (\<forall>j<i. list_all (\<lambda>r. kind r \<noteq> ''footer'') (line_records ls j)))
       \<and> (\<forall>j. i < j \<and> j \<le> length ls \<longrightarrow> in_footer_at ls j)
       \<and> (\<forall>j<length ls. is_hr (ls ! j)
             \<longrightarrow> line_records ls j
                 = [\<lparr>kind = ''hr'', text_field = [], level = 0, mentions = []\<rparr>])"
proof (intro conjI allI impI)
  show "parse_markdown md = concat (map (line_records ls) [0..<length ls])"
    using assms(1) by (simp add: parse_markdown_concat)
next
  fix j
  assume a: "i < j \<and> j < length ls \<and> \<not> is_blank (ls ! j) \<and> \<not> is_heading (ls ! j)
               \<and> \<not> is_checkbox (ls ! j) \<and> \<not> is_hr (ls ! j)"
  with assms(3) have "in_footer_at ls j" by (intro in_footer_after_hr[of i j ls]) simp_all
  with a show "map kind (line_records ls j) = [''footer'']"
    by (simp add: line_records_def kinds_footer)
next
  fix j
  assume first: "\<forall>k<i. \<not> is_hr (ls ! k)" and j: "j < i"
  with assms(2) have "\<not> in_footer_at ls j" by (simp add: in_footer_at_iff)
  then show "list_all (\<lambda>r. kind r \<noteq> ''footer'') (line_records ls j)"
    by (simp add: line_records_def kinds_no_footer)
next
  fix j
  assume "i < j \<and> j \<le> length ls"
  with assms(3) show "in_footer_at ls j" by (intro in_footer_after_hr[of i j ls]) simp_all
next
  fix j
  assume "j < length ls" and "is_hr (ls ! j)"
  then show "line_records ls j = [\<lparr>kind = ''hr'', text_field = [], level = 0, mentions = []\<rparr>]"
    by (simp add: line_records_def kinds_hr mk_def)
qed

text \<open>The theorem at the input "a", "---", "- b", "---", "c" and \<open>i = 1\<close>.\<close>

theorem C2_footer_latch_witness:
  "split_lines (''a'' @ [CHR 0x0A] @ ''---'' @ [CHR 0x0A] @ ''- b'' @ [CHR 0x0A] @ ''---''
      @ [CHR 0x0A] @ ''c'') = [''a'', ''---'', ''- b'', ''---'', ''c'']
   \<and> is_hr ''---'' \<and> \<not> is_hr ''a''
   \<and> map kind (line_records [''a'', ''---'', ''- b'', ''---'', ''c''] 2) = [''footer'']
   \<and> map kind (line_records [''a'', ''---'', ''- b'', ''---'', ''c''] 4) = [''footer'']
   \<and> list_all (\<lambda>r. kind r \<noteq> ''footer'') (line_records [''a'', ''---'', ''- b'', ''---'', ''c''] 0)
   \<and> in_footer_at [''a'', ''---'', ''- b'', ''---'', ''c''] 5
   \<and> map kind (line_records [''a'', ''---'', ''- b'', ''---'', ''c''] 3) = [''hr'']
   \<and> map kind (parse_markdown (''a'' @ [CHR 0x0A] @ ''---'' @ [CHR 0x0A] @ ''- b''
         @ [CHR 0x0A] @ ''---'' @ [CHR 0x0A] @ ''c''))
       = [''text'', ''hr'', ''footer'', ''hr'', ''footer'']"
proof -
  let ?md = "''a'' @ [CHR 0x0A] @ ''---'' @ [CHR 0x0A] @ ''- b'' @ [CHR 0x0A] @ ''---''
      @ [CHR 0x0A] @ ''c''"
  let ?ls = "[''a'', ''---'', ''- b'', ''---'', ''c'']"
  have l: "split_lines ?md = ?ls" by code_simp
  have h: "is_hr ''---''" "\<not> is_hr ''a''" by code_simp+
  have n2: "\<not> is_blank ''- b''" "\<not> is_heading ''- b''" "\<not> is_checkbox ''- b''"
    "\<not> is_hr ''- b''" by code_simp+
  have n4: "\<not> is_blank ''c''" "\<not> is_heading ''c''" "\<not> is_checkbox ''c''"
    "\<not> is_hr ''c''" by code_simp+
  have p: "map kind (parse_markdown ?md) = [''text'', ''hr'', ''footer'', ''hr'', ''footer'']"
    by code_simp
  note t = C2_footer_latch[of ?ls ?md 1]
  have pre: "?ls = split_lines ?md" "1 < length ?ls" "is_hr (?ls ! 1)"
    using l h by simp_all
  note c = t[OF pre]
  from c have b: "\<forall>j. 1 < j \<and> j < length ?ls \<and> \<not> is_blank (?ls ! j) \<and> \<not> is_heading (?ls ! j)
               \<and> \<not> is_checkbox (?ls ! j) \<and> \<not> is_hr (?ls ! j)
             \<longrightarrow> map kind (line_records ?ls j) = [''footer'']" by blast
  from b[rule_format, of 2] n2 have r2: "map kind (line_records ?ls 2) = [''footer'']" by simp
  from b[rule_format, of 4] n4 have r4: "map kind (line_records ?ls 4) = [''footer'']" by simp
  from c have "(\<forall>k<1. \<not> is_hr (?ls ! k))
             \<longrightarrow> (\<forall>j<1. list_all (\<lambda>r. kind r \<noteq> ''footer'') (line_records ?ls j))" by blast
  with h have r0: "list_all (\<lambda>r. kind r \<noteq> ''footer'') (line_records ?ls 0)" by simp
  from c have "\<forall>j. 1 < j \<and> j \<le> length ?ls \<longrightarrow> in_footer_at ?ls j" by blast
  from this[rule_format, of 5] have r5: "in_footer_at ?ls 5" by simp
  from c have "\<forall>j<length ?ls. is_hr (?ls ! j)
             \<longrightarrow> line_records ?ls j
                 = [\<lparr>kind = ''hr'', text_field = [], level = 0, mentions = []\<rparr>]" by blast
  from this[rule_format, of 3] h have r3: "map kind (line_records ?ls 3) = [''hr'']" by simp
  from l h r2 r4 r0 r5 r3 p show ?thesis by simp
qed

text \<open>
  Claim C5. A line the checkbox pattern matches is emitted with kind checkbox also when
  footer mode is active: for a checkbox line at position \<open>j\<close> after a "---" line, the flag
  is set when the loop reaches it and its record has kind checkbox. The pattern is
  matched against the line without its trailing white space, as the classifier does.
\<close>

theorem C5_checkbox_in_footer_mode:
  assumes "ls = split_lines md" and "i < j" and "j < length ls"
    and "is_hr (ls ! i)" and "is_checkbox (ls ! j)"
  shows "parse_markdown md = concat (map (line_records ls) [0..<length ls])
       \<and> in_footer_at ls j
       \<and> map kind (line_records ls j) = [''checkbox'']
       \<and> map kind (fst (parse_line True (ls ! j))) = [''checkbox'']"
  using assms
  by (simp add: parse_markdown_concat in_footer_after_hr kinds_checkbox line_records_def)

text \<open>The theorem at the input "---", "- [ ] x".\<close>

theorem C5_checkbox_in_footer_mode_witness:
  "split_lines (''---'' @ [CHR 0x0A] @ ''- [ ] x'') = [''---'', ''- [ ] x'']
   \<and> is_hr ''---'' \<and> is_checkbox ''- [ ] x''
   \<and> in_footer_at [''---'', ''- [ ] x''] 1
   \<and> map kind (line_records [''---'', ''- [ ] x''] 1) = [''checkbox'']
   \<and> map kind (parse_markdown (''---'' @ [CHR 0x0A] @ ''- [ ] x'')) = [''hr'', ''checkbox'']"
proof -
  let ?md = "''---'' @ [CHR 0x0A] @ ''- [ ] x''"
  let ?ls = "[''---'', ''- [ ] x'']"
  have l: "split_lines ?md = ?ls" by code_simp
  have h: "is_hr ''---''" "is_checkbox ''- [ ] x''" by code_simp+
  have p: "map kind (parse_markdown ?md) = [''hr'', ''checkbox'']" by code_simp
  from C5_checkbox_in_footer_mode[of ?ls ?md 0 1] l h p show ?thesis by simp
qed

text \<open>
  Claim C9. A heading line after a "---" line is emitted as h1, h2 or h3, the subtitle of
  an h1 line with kind text (not footer), and footer mode stays active for all the lines
  after the heading. A heading line is one that starts with "# ", "## " or "### " once
  its trailing white space is removed, as the classifier sees it.
\<close>

theorem C9_heading_in_footer_mode:
  assumes "ls = split_lines md" and "i < j" and "j < length ls"
    and "is_hr (ls ! i)" and "is_heading (ls ! j)"
  shows "parse_markdown md = concat (map (line_records ls) [0..<length ls])
       \<and> in_footer_at ls j
       \<and> map kind (line_records ls j) =
           (if startswith ''# '' (rstrip (ls ! j))
            then (if has_subtitle (ls ! j) then [''h1'', ''text''] else [''h1''])
            else if startswith ''## '' (rstrip (ls ! j)) then [''h2''] else [''h3''])
       \<and> (\<forall>k. j < k \<and> k \<le> length ls \<longrightarrow> in_footer_at ls k)"
proof (intro conjI allI impI)
  show "parse_markdown md = concat (map (line_records ls) [0..<length ls])"
    using assms(1) by (simp add: parse_markdown_concat)
  show "in_footer_at ls j"
    using assms by (simp add: in_footer_after_hr)
  show "map kind (line_records ls j) =
           (if startswith ''# '' (rstrip (ls ! j))
            then (if has_subtitle (ls ! j) then [''h1'', ''text''] else [''h1''])
            else if startswith ''## '' (rstrip (ls ! j)) then [''h2''] else [''h3''])"
    unfolding line_records_def using assms(5) by (rule kinds_heading)
next
  fix k assume "j < k \<and> k \<le> length ls"
  with assms(2,4) show "in_footer_at ls k"
    by (intro in_footer_after_hr[of i k ls]) simp_all
qed

text \<open>The theorem at the input "---", "# A - b", "foo".\<close>

theorem C9_heading_in_footer_mode_witness:
  "split_lines (''---'' @ [CHR 0x0A] @ ''# A - b'' @ [CHR 0x0A] @ ''foo'')
     = [''---'', ''# A - b'', ''foo'']
   \<and> is_hr ''---'' \<and> is_heading ''# A - b''
   \<and> in_footer_at [''---'', ''# A - b'', ''foo''] 1
   \<and> map kind (line_records [''---'', ''# A - b'', ''foo''] 1) = [''h1'', ''text'']
   \<and> in_footer_at [''---'', ''# A - b'', ''foo''] 2
   \<and> map kind (parse_markdown (''---'' @ [CHR 0x0A] @ ''# A - b'' @ [CHR 0x0A] @ ''foo''))
       = [''hr'', ''h1'', ''text'', ''footer'']"
proof -
  let ?md = "''---'' @ [CHR 0x0A] @ ''# A - b'' @ [CHR 0x0A] @ ''foo''"
  let ?ls = "[''---'', ''# A - b'', ''foo'']"
  have l: "split_lines ?md = ?ls" by code_simp
  have h: "is_hr ''---''" "is_heading ''# A - b''" "has_subtitle ''# A - b''"
    "startswith ''# '' (rstrip ''# A - b'')" by code_simp+
  have p: "map kind (parse_markdown ?md) = [''hr'', ''h1'', ''text'', ''footer'']" by code_simp
  from C9_heading_in_footer_mode[of ?ls ?md 0 1] l h
  have "in_footer_at ?ls 1 \<and> map kind (line_records ?ls 1) = [''h1'', ''text'']
      \<and> (\<forall>k. 1 < k \<and> k \<le> length ?ls \<longrightarrow> in_footer_at ?ls k)" by simp
  then have "in_footer_at ?ls 1" "map kind (line_records ?ls 1) = [''h1'', ''text'']"
    "in_footer_at ?ls 2" by simp_all
  with l h p show ?thesis by simp
qed


section \<open>One line, one record\<close>

text \<open>
  Claim C8. Every input line gives exactly one record, except a line that starts with
  "# " and whose content contains the separator " - ", which gives exactly two: the h1
  record and then a text record. The content of a heading line is the text after the
  prefix, trimmed, which is what the source splits. No other line gives more than one
  record.
\<close>

theorem C8_records_per_line:
  "parse_markdown md = concat (map (line_records (split_lines md)) [0..<length (split_lines md)])
   \<and> (j < length (split_lines md)
        \<longrightarrow> length (line_records (split_lines md) j)
            = (if has_separator (split_lines md ! j) then 2 else 1))
   \<and> length (fst (parse_line f raw)) = (if has_separator raw then 2 else 1)
   \<and> (has_separator raw \<longrightarrow> map kind (fst (parse_line f raw)) = [''h1'', ''text''])"
proof (intro conjI impI)
  show "parse_markdown md
      = concat (map (line_records (split_lines md)) [0..<length (split_lines md)])"
    by (rule parse_markdown_concat)
next
  assume "j < length (split_lines md)"
  show "length (line_records (split_lines md) j)
      = (if has_separator (split_lines md ! j) then 2 else 1)"
    by (simp add: line_records_def length_parse_line has_separator_iff)
next
  show "length (fst (parse_line f raw)) = (if has_separator raw then 2 else 1)"
    by (simp add: length_parse_line has_separator_iff)
next
  assume "has_separator raw"
  then have s: "has_subtitle raw" by (simp add: has_separator_iff)
  then have h: "startswith ''# '' (rstrip raw)" by (rule has_subtitle_h1)
  then have "is_heading raw" by (simp add: is_heading_def)
  from kinds_heading[OF this, of f] s h
  show "map kind (fst (parse_line f raw)) = [''h1'', ''text'']" by simp
qed

text \<open>The theorem at the input "# Sync - Weekly", "# Sync".\<close>

theorem C8_records_per_line_witness:
  "split_lines (''# Sync - Weekly'' @ [CHR 0x0A] @ ''# Sync'') = [''# Sync - Weekly'', ''# Sync'']
   \<and> has_separator ''# Sync - Weekly''
   \<and> length (line_records [''# Sync - Weekly'', ''# Sync''] 0) = 2
   \<and> map kind (fst (parse_line False ''# Sync - Weekly'')) = [''h1'', ''text'']
   \<and> \<not> has_separator ''# Sync''
   \<and> length (line_records [''# Sync - Weekly'', ''# Sync''] 1) = 1
   \<and> map kind (parse_markdown (''# Sync - Weekly'' @ [CHR 0x0A] @ ''# Sync''))
       = [''h1'', ''text'', ''h1'']"
proof -
  let ?md = "''# Sync - Weekly'' @ [CHR 0x0A] @ ''# Sync''"
  let ?ls = "[''# Sync - Weekly'', ''# Sync'']"
  have l: "split_lines ?md = ?ls" by code_simp
  have h: "has_separator ''# Sync - Weekly''" "\<not> has_separator ''# Sync''" by code_simp+
  have p: "map kind (parse_markdown ?md) = [''h1'', ''text'', ''h1'']" by code_simp
  note t0 = C8_records_per_line[of ?md 0 False "''# Sync - Weekly''"]
  note t1 = C8_records_per_line[of ?md 1 False "''# Sync''"]
  from t0[THEN conjunct2, THEN conjunct1] l h
  have a: "length (line_records ?ls 0) = 2" by simp
  from t0[THEN conjunct2, THEN conjunct2, THEN conjunct2] h
  have b: "map kind (fst (parse_line False ''# Sync - Weekly'')) = [''h1'', ''text'']" by simp
  from t1[THEN conjunct2, THEN conjunct1] l h
  have c: "length (line_records ?ls 1) = 1" by simp
  from l h a b c p show ?thesis by simp
qed

section \<open>Checkbox and bullet\<close>

text \<open>
  Claim C4, as stated, fails on the line "-[ ] buy milk": the dash is immediately followed
  by "[ ]", and the line is classified as checkbox, with text "buy milk". The pattern
  \<^verbatim>\<open>-\s*\[ \]\s+\<close> allows no white space between the dash and the bracket pair.
\<close>

theorem C4_counterexample:
  "parse_markdown ''-[ ] buy milk''
     = [\<lparr>kind = ''checkbox'', text_field = ''buy milk'', level = 0, mentions = []\<rparr>]
   \<and> match_cb ''-[ ] buy milk'' = Some ([], ''buy milk'')"
  by code_simp


text \<open>
  Claim C4, amended. The checkbox pattern requires white space after the bracket pair, and
  allows none between the dash and the bracket pair: "- [ ] buy milk" gives kind checkbox
  with text "buy milk"; "- buy milk" gives kind bullet with text "buy milk"; "-[ ]buy milk"
  matches neither the checkbox nor the bullet pattern and is emitted by the plain-text
  branch; no line of an input contains LF, and in general a line without LF whose dash, after
  optional leading white space, is immediately followed by "[ ]" is classified as checkbox
  exactly when the "[ ]" is followed by a white space character and the rest of the line
  is not all white space, and otherwise it is emitted by the plain-text branch.
\<close>

theorem C4_checkbox_boundary:
  "parse_markdown ''- [ ] buy milk''
     = [\<lparr>kind = ''checkbox'', text_field = ''buy milk'', level = 0, mentions = []\<rparr>]
   \<and> parse_markdown ''- buy milk''
     = [\<lparr>kind = ''bullet'', text_field = ''buy milk'', level = 0, mentions = []\<rparr>]
   \<and> match_cb ''-[ ]buy milk'' = None \<and> match_b ''-[ ]buy milk'' = None
   \<and> parse_markdown ''-[ ]buy milk''
     = [\<lparr>kind = ''text'', text_field = ''-[ ]buy milk'', level = 0, mentions = []\<rparr>]
   \<and> list_all (\<lambda>l. CHR 0x0A \<notin> set l) (split_lines md)
   \<and> ((\<forall>c\<in>set pre. is_space c) \<and> CHR 0x0A \<notin> set x
        \<longrightarrow> (is_checkbox (pre @ ''-[ ]'' @ x)
               \<longleftrightarrow> takeWhile is_space x \<noteq> [] \<and> strip x \<noteq> [])
          \<and> map kind (fst (parse_line f (pre @ ''-[ ]'' @ x)))
            = [if takeWhile is_space x \<noteq> [] \<and> strip x \<noteq> [] then ''checkbox''
               else if f then ''footer'' else ''text''])"
proof (intro conjI impI)
  show "parse_markdown ''- [ ] buy milk''
     = [\<lparr>kind = ''checkbox'', text_field = ''buy milk'', level = 0, mentions = []\<rparr>]"
    by code_simp
  show "parse_markdown ''- buy milk''
     = [\<lparr>kind = ''bullet'', text_field = ''buy milk'', level = 0, mentions = []\<rparr>]"
    by code_simp
  show "list_all (\<lambda>l. CHR 0x0A \<notin> set l) (split_lines md)"
    by (simp add: list_all_iff split_lines_no_LF)
  show "match_cb ''-[ ]buy milk'' = None" by code_simp
  show "match_b ''-[ ]buy milk'' = None" by code_simp
  show "parse_markdown ''-[ ]buy milk''
     = [\<lparr>kind = ''text'', text_field = ''-[ ]buy milk'', level = 0, mentions = []\<rparr>]"
    by code_simp
next
  assume a: "(\<forall>c\<in>set pre. is_space c) \<and> CHR 0x0A \<notin> set x"
  then show "is_checkbox (pre @ ''-[ ]'' @ x)
               \<longleftrightarrow> takeWhile is_space x \<noteq> [] \<and> strip x \<noteq> []"
    using dash_box_parse(1)[of pre x] by blast
  from a show "map kind (fst (parse_line f (pre @ ''-[ ]'' @ x)))
            = [if takeWhile is_space x \<noteq> [] \<and> strip x \<noteq> [] then ''checkbox''
               else if f then ''footer'' else ''text'']"
    using dash_box_parse(2)[of pre x f] by blast
qed

text \<open>
  The general part of the theorem at the lines "  -[ ] buy milk" (a checkbox) and
  "-[ ]buy milk" (plain text).
\<close>

theorem C4_checkbox_boundary_witness:
  "is_checkbox (''  '' @ ''-[ ]'' @ '' buy milk'')
   \<and> map kind (fst (parse_line False (''  '' @ ''-[ ]'' @ '' buy milk''))) = [''checkbox'']
   \<and> \<not> is_checkbox ([] @ ''-[ ]'' @ ''buy milk'')
   \<and> map kind (fst (parse_line False ([] @ ''-[ ]'' @ ''buy milk''))) = [''text'']"
proof -
  have h1: "(\<forall>c\<in>set ''  ''. is_space c) \<and> CHR 0x0A \<notin> set '' buy milk''"
    by (simp add: is_space_def)
  have h2: "(\<forall>c\<in>set []. is_space c) \<and> CHR 0x0A \<notin> set ''buy milk''"
    by simp
  have e1: "takeWhile is_space '' buy milk'' \<noteq> []" "strip '' buy milk'' \<noteq> []" by code_simp+
  have e2: "takeWhile is_space ''buy milk'' = []" by code_simp
  note t1 = C4_checkbox_boundary[of "[]" "''  ''" "'' buy milk''" False]
  note t2 = C4_checkbox_boundary[of "[]" "[]" "''buy milk''" False]
  note g1 = t1[THEN conjunct2, THEN conjunct2, THEN conjunct2, THEN conjunct2,
      THEN conjunct2, THEN conjunct2, THEN mp, OF h1]
  note g2 = t2[THEN conjunct2, THEN conjunct2, THEN conjunct2, THEN conjunct2,
      THEN conjunct2, THEN conjunct2, THEN mp, OF h2]
  from g1 e1 have a: "is_checkbox (''  '' @ ''-[ ]'' @ '' buy milk'')"
    "map kind (fst (parse_line False (''  '' @ ''-[ ]'' @ '' buy milk''))) = [''checkbox'']"
    by simp_all
  from g2 e2 have b: "\<not> is_checkbox ([] @ ''-[ ]'' @ ''buy milk'')"
    "map kind (fst (parse_line False ([] @ ''-[ ]'' @ ''buy milk''))) = [''text'']"
    by simp_all
  from a b show ?thesis by simp
qed


section \<open>Mention spans\<close>

text \<open>
  Claim C6, as stated, fails on the input "# A - @bob": the second record has kind text
  and text "@bob", which contains the token "@bob" at (0, 4), and its mentions field is
  empty. The subtitle of an h1 line is built without mention spans.
\<close>

theorem C6_counterexample:
  "parse_markdown ''# A - @bob''
     = [\<lparr>kind = ''h1'', text_field = ''A'', level = 0, mentions = []\<rparr>,
        \<lparr>kind = ''text'', text_field = ''@bob'', level = 0, mentions = []\<rparr>]
   \<and> mention_tokens ''@bob'' = [(0, 4)]
   \<and> mention_spans ''@bob'' = [(0, 4)]"
  by code_simp


text \<open>
  Claim C6, amended. \<^verbatim>\<open>_mention_spans\<close> returns exactly the spans of the maximal tokens
  "@ followed by one or more word characters" of its argument, from left to right: every
  span starts at an @, covers at least one and only word characters after it, ends at
  the end of the text or before a character that is not a word character and lies
  within the text; every @ followed by a word character starts a span; and each span ends
  at or before the start of the next. Every record of kind checkbox, bullet or footer,
  and every record of kind text that does not come from an h1 line, has these spans of
  its own text as mentions; records of kind h1, h2, h3 and hr, and both records of an h1
  line (so also its subtitle), have no mentions. The spans of every record are offset
  ranges into that record's text. For "ping @alice and @bob_2" the spans are (5, 11) and
  (16, 22).
\<close>

theorem C6_mentions:
  "mention_spans t = mention_tokens t
   \<and> (\<forall>s e. (s, e) \<in> set (mention_spans t)
         \<longrightarrow> Suc s < e \<and> e \<le> length t \<and> t ! s = CHR ''@''
             \<and> (\<forall>k. s < k \<and> k < e \<longrightarrow> is_word (t ! k))
             \<and> (e < length t \<longrightarrow> \<not> is_word (t ! e)))
   \<and> (\<forall>p. Suc p < length t \<and> t ! p = CHR ''@'' \<and> is_word (t ! Suc p)
         \<longrightarrow> (\<exists>e. (p, e) \<in> set (mention_spans t)))
   \<and> sorted_wrt (\<lambda>a b. snd a \<le> fst b) (mention_spans t)
   \<and> list_all (\<lambda>r.
         (kind r \<in> set [''checkbox'', ''bullet'', ''footer'']
            \<longrightarrow> mentions r = mention_spans (text_field r))
       \<and> (kind r \<in> set [''h1'', ''h2'', ''h3'', ''hr''] \<longrightarrow> mentions r = []))
       (parse_markdown md)
   \<and> list_all (\<lambda>r. list_all (\<lambda>(s, e). s < e \<and> e \<le> length (text_field r)) (mentions r))
       (parse_markdown md)
   \<and> (j < length (split_lines md)
        \<longrightarrow> list_all (\<lambda>r.
               (kind r = ''text'' \<and> \<not> startswith ''# '' (rstrip (split_lines md ! j))
                  \<longrightarrow> mentions r = mention_spans (text_field r))
             \<and> (startswith ''# '' (rstrip (split_lines md ! j)) \<longrightarrow> mentions r = []))
             (line_records (split_lines md) j))
   \<and> mention_spans ''ping @alice and @bob_2'' = [(5, 11), (16, 22)]"
proof (intro conjI allI impI)
  show "mention_spans t = mention_tokens t" by (rule mention_spans_tokens)
  show "sorted_wrt (\<lambda>a b. snd a \<le> fst b) (mention_spans t)"
    by (simp add: mention_spans_tokens mention_tokens_sorted)
  show "list_all (\<lambda>r.
         (kind r \<in> set [''checkbox'', ''bullet'', ''footer'']
            \<longrightarrow> mentions r = mention_spans (text_field r))
       \<and> (kind r \<in> set [''h1'', ''h2'', ''h3'', ''hr''] \<longrightarrow> mentions r = []))
       (parse_markdown md)"
    unfolding parse_markdown_def by (rule parse_lines_all) (rule mentions_by_kind)
  show "list_all (\<lambda>r. list_all (\<lambda>(s, e). s < e \<and> e \<le> length (text_field r)) (mentions r))
       (parse_markdown md)"
    unfolding parse_markdown_def by (rule parse_lines_all) (rule spans_in_range)
  show "mention_spans ''ping @alice and @bob_2'' = [(5, 11), (16, 22)]" by code_simp
next
  fix s e assume m: "(s, e) \<in> set (mention_spans t)"
  show "Suc s < e" "e \<le> length t" "t ! s = CHR ''@''"
    using span_valid(1-3)[OF m] by simp_all
  show "e < length t \<Longrightarrow> \<not> is_word (t ! e)" using span_valid(5)[OF m] by simp
  fix k assume "s < k \<and> k < e"
  then show "is_word (t ! k)" using span_valid(4)[OF m] by simp
next
  fix p assume "Suc p < length t \<and> t ! p = CHR ''@'' \<and> is_word (t ! Suc p)"
  then have "mention_at t p" by (simp add: mention_at_iff)
  then have "(p, mention_end t p) \<in> set (mention_spans t)"
    by (simp add: mention_spans_tokens mention_tokens_mem)
  then show "\<exists>e. (p, e) \<in> set (mention_spans t)" ..
next
  assume "j < length (split_lines md)"
  show "list_all (\<lambda>r.
               (kind r = ''text'' \<and> \<not> startswith ''# '' (rstrip (split_lines md ! j))
                  \<longrightarrow> mentions r = mention_spans (text_field r))
             \<and> (startswith ''# '' (rstrip (split_lines md ! j)) \<longrightarrow> mentions r = []))
             (line_records (split_lines md) j)"
    unfolding line_records_def
    using mentions_line[of "split_lines md ! j" "in_footer_at (split_lines md) j"]
    by (simp add: list_all_iff mention_spans_tokens)
qed

text \<open>
  The theorem at the text "ping @alice and @bob_2" and the input "- hi @bob", "# A - @c".
\<close>

theorem C6_mentions_witness:
  "mention_tokens ''ping @alice and @bob_2'' = [(5, 11), (16, 22)]
   \<and> (5, 11) \<in> set (mention_spans ''ping @alice and @bob_2'')
   \<and> ''ping @alice and @bob_2'' ! 5 = CHR ''@''
   \<and> 11 \<le> length ''ping @alice and @bob_2''
   \<and> is_word (''ping @alice and @bob_2'' ! 6)
   \<and> \<not> is_word (''ping @alice and @bob_2'' ! 11)
   \<and> (\<exists>e. (16, e) \<in> set (mention_spans ''ping @alice and @bob_2''))
   \<and> split_lines (''- hi @bob'' @ [CHR 0x0A] @ ''# A - @c'') = [''- hi @bob'', ''# A - @c'']
   \<and> startswith ''# '' (rstrip ''# A - @c'')
   \<and> map mentions (line_records [''- hi @bob'', ''# A - @c''] 1) = [[], []]
   \<and> map kind (parse_markdown (''- hi @bob'' @ [CHR 0x0A] @ ''# A - @c''))
       = [''bullet'', ''h1'', ''text'']
   \<and> map mentions (parse_markdown (''- hi @bob'' @ [CHR 0x0A] @ ''# A - @c''))
       = [[(3, 7)], [], []]"
proof -
  let ?t = "''ping @alice and @bob_2''"
  let ?md = "''- hi @bob'' @ [CHR 0x0A] @ ''# A - @c''"
  let ?ls = "[''- hi @bob'', ''# A - @c'']"
  note c = C6_mentions[of ?t ?md 1]
  have l: "split_lines ?md = ?ls" by code_simp
  have h: "startswith ''# '' (rstrip ''# A - @c'')" by code_simp
  have n: "length (line_records ?ls 1) = 2" by code_simp
  have p: "map kind (parse_markdown ?md) = [''bullet'', ''h1'', ''text'']"
    "map mentions (parse_markdown ?md) = [[(3, 7)], [], []]" by code_simp+
  note c1 = c[THEN conjunct1]
  note c2 = c[THEN conjunct2, THEN conjunct1]
  note c3 = c[THEN conjunct2, THEN conjunct2, THEN conjunct1]
  note c7 = c[THEN conjunct2, THEN conjunct2, THEN conjunct2, THEN conjunct2,
      THEN conjunct2, THEN conjunct2, THEN conjunct1]
  note c8 = c[THEN conjunct2, THEN conjunct2, THEN conjunct2, THEN conjunct2,
      THEN conjunct2, THEN conjunct2, THEN conjunct2]
  from c1 c8 have tok: "mention_tokens ?t = [(5, 11), (16, 22)]" by (simp only:)
  from c8 have m: "(5, 11) \<in> set (mention_spans ?t)" by (simp only: list.set insertI1)
  note v0 = c2[rule_format, OF m]
  from v0 have v: "?t ! 5 = CHR ''@''" "11 \<le> length ?t" "\<not> is_word (?t ! 11)"
    by simp_all
  from v0 have "\<forall>k. 5 < k \<and> k < 11 \<longrightarrow> is_word (?t ! k)" by blast
  from this[rule_format, of 6] have v6: "is_word (?t ! 6)" by simp
  have w: "Suc 16 < length ?t \<and> ?t ! 16 = CHR ''@'' \<and> is_word (?t ! Suc 16)"
    by (simp add: is_word_def)
  from c3[rule_format, OF w] have ex: "\<exists>e. (16, e) \<in> set (mention_spans ?t)" .
  from c7 l h have "list_all (\<lambda>r. mentions r = []) (line_records ?ls 1)" by simp
  with n have r: "map mentions (line_records ?ls 1) = [[], []]"
    by (cases "line_records ?ls 1" rule: list.exhaust; cases "tl (line_records ?ls 1)")
       auto
  from tok m v v6 ex l h r p show ?thesis by simp
qed


end
